theory Spec2Isabelle
  imports Main "HOL-Library.AList"
begin

section \<open>JavaScript values\<close>

text \<open>
  Values that cross \<^verbatim>\<open>chrome.storage.local\<close> and \<^verbatim>\<open>JSON.stringify\<close> are JSON values.
  Numbers are integers (timestamps, durations and sizes in the code); strings are lists
  of code units below 256. An object is an association list in property order.
\<close>

datatype json =
    JNull
  | JBool bool
  | JNum int
  | JStr string
  | JArr "json list"
  | JObj "(string \<times> json) list"

text \<open>A JavaScript \<^verbatim>\<open>Error\<close>: its \<^verbatim>\<open>name\<close> and its \<^verbatim>\<open>message\<close>.\<close>

record js_error =
  err_name :: string
  err_message :: string

text \<open>\<^verbatim>\<open>s.startsWith(p)\<close> and \<^verbatim>\<open>s.includes(p)\<close>.\<close>

fun starts_with :: "string \<Rightarrow> string \<Rightarrow> bool" where
  "starts_with s [] = True"
| "starts_with [] (c # p) = False"
| "starts_with (d # s) (c # p) = (d = c \<and> starts_with s p)"

fun str_includes :: "string \<Rightarrow> string \<Rightarrow> bool" where
  "str_includes [] p = (p = [])"
| "str_includes (c # s) p = (starts_with (c # s) p \<or> str_includes s p)"

text \<open>
  Numbers. A JavaScript number is an integer here, or \<^verbatim>\<open>NaN\<close> where the code can
  produce it (\<^verbatim>\<open>Number.parseInt\<close> of a string that does not start with a number).
  A comparison with \<^verbatim>\<open>NaN\<close> is false; \<^verbatim>\<open>Math.max\<close> of \<^verbatim>\<open>NaN\<close> is \<^verbatim>\<open>NaN\<close>.
\<close>

datatype jsnum = Num int | NaN

fun js_max :: "jsnum \<Rightarrow> jsnum \<Rightarrow> jsnum" where
  "js_max (Num a) (Num b) = Num (max a b)"
| "js_max NaN y = NaN"
| "js_max x NaN = NaN"

fun js_gt :: "jsnum \<Rightarrow> jsnum \<Rightarrow> bool" where
  "js_gt (Num a) (Num b) = (a > b)"
| "js_gt NaN y = False"
| "js_gt x NaN = False"

fun js_sub :: "jsnum \<Rightarrow> jsnum \<Rightarrow> jsnum" where
  "js_sub (Num a) (Num b) = Num (a - b)"
| "js_sub NaN y = NaN"
| "js_sub x NaN = NaN"

text \<open>Decimal printing, as \<^verbatim>\<open>String(n)\<close> and template literals print an integer.\<close>

definition digit_char :: "nat \<Rightarrow> char" where
  "digit_char d = ''0123456789'' ! d"

fun digits_of :: "nat \<Rightarrow> string" where
  "digits_of n = (if n < 10 then [digit_char n] else digits_of (n div 10) @ [digit_char (n mod 10)])"

declare digits_of.simps [simp del]

definition show_int :: "int \<Rightarrow> string" where
  "show_int i = (if i < 0 then CHR ''-'' # digits_of (nat (- i)) else digits_of (nat i))"

fun show_jsnum :: "jsnum \<Rightarrow> string" where
  "show_jsnum (Num n) = show_int n"
| "show_jsnum NaN = ''NaN''"

text \<open>\<^verbatim>\<open>Array.prototype.findIndex\<close> (\<open>None\<close> for -1).\<close>

fun find_index :: "('a \<Rightarrow> bool) \<Rightarrow> 'a list \<Rightarrow> nat option" where
  "find_index P [] = None"
| "find_index P (x # xs) = (if P x then Some 0 else map_option Suc (find_index P xs))"

subsection \<open>JSON.stringify\<close>

definition hex_char :: "nat \<Rightarrow> char" where
  "hex_char d = ''0123456789abcdef'' ! d"

definition quote_char :: "char \<Rightarrow> string" where
  "quote_char c =
     (if c = CHR 0x22 then [CHR 0x5C, CHR 0x22]
      else if c = CHR 0x5C then [CHR 0x5C, CHR 0x5C]
      else if c = CHR 0x08 then [CHR 0x5C, CHR ''b'']
      else if c = CHR 0x0C then [CHR 0x5C, CHR ''f'']
      else if c = CHR 0x0A then [CHR 0x5C, CHR ''n'']
      else if c = CHR 0x0D then [CHR 0x5C, CHR ''r'']
      else if c = CHR 0x09 then [CHR 0x5C, CHR ''t'']
      else if (of_char c :: nat) < 32 then
        [CHR 0x5C, CHR ''u'', CHR ''0'', CHR ''0'', hex_char (of_char c div 16), hex_char (of_char c mod 16)]
      else [c])"

definition json_quote :: "string \<Rightarrow> string" where
  "json_quote s = CHR 0x22 # concat (map quote_char s) @ [CHR 0x22]"

fun join_comma :: "string list \<Rightarrow> string" where
  "join_comma [] = []"
| "join_comma [x] = x"
| "join_comma (x # y # ys) = x @ CHR '','' # join_comma (y # ys)"

fun JSON_stringify :: "json \<Rightarrow> string" where
  "JSON_stringify JNull = ''null''"
| "JSON_stringify (JBool b) = (if b then ''true'' else ''false'')"
| "JSON_stringify (JNum n) = show_int n"
| "JSON_stringify (JStr s) = json_quote s"
| "JSON_stringify (JArr xs) = CHR ''['' # join_comma (map JSON_stringify xs) @ [CHR '']'']"
| "JSON_stringify (JObj kvs) =
     CHR ''{'' # join_comma (map (\<lambda>(k, v). json_quote k @ CHR '':'' # JSON_stringify v) kvs) @ [CHR ''}'']"

subsection \<open>JSON.parse\<close>

definition is_digit :: "char \<Rightarrow> bool" where
  "is_digit c = (48 \<le> (of_char c :: nat) \<and> (of_char c :: nat) \<le> 57)"

definition digit_val :: "char \<Rightarrow> nat" where
  "digit_val c = of_char c - 48"

definition hex_val :: "char \<Rightarrow> nat option" where
  "hex_val c =
     (let n = (of_char c :: nat) in
      if 48 \<le> n \<and> n \<le> 57 then Some (n - 48)
      else if 97 \<le> n \<and> n \<le> 102 then Some (n - 87)
      else if 65 \<le> n \<and> n \<le> 70 then Some (n - 55)
      else None)"

text \<open>The characters of a string literal after its opening quote, to the closing quote.\<close>

fun parse_chars :: "string \<Rightarrow> (string \<times> string) option" where
  "parse_chars [] = None"
| "parse_chars (c # r) =
     (if c = CHR 0x22 then Some ([], r)
      else if c = CHR 0x5C then
        (case r of
           [] \<Rightarrow> None
         | e # r1 \<Rightarrow>
             if e = CHR ''u'' then
               (case r1 of
                  a # b # x # y # r2 \<Rightarrow>
                    (case (hex_val a, hex_val b, hex_val x, hex_val y) of
                       (Some ha, Some hb, Some hx, Some hy) \<Rightarrow>
                         if ha = 0 \<and> hb = 0 then
                           map_option (\<lambda>(s, t). (char_of (16 * hx + hy) # s, t)) (parse_chars r2)
                         else None
                     | _ \<Rightarrow> None)
                | _ \<Rightarrow> None)
             else
               (case (if e = CHR 0x22 then Some (CHR 0x22)
                      else if e = CHR 0x5C then Some (CHR 0x5C)
                      else if e = CHR ''/'' then Some (CHR ''/'')
                      else if e = CHR ''b'' then Some (CHR 0x08)
                      else if e = CHR ''f'' then Some (CHR 0x0C)
                      else if e = CHR ''n'' then Some (CHR 0x0A)
                      else if e = CHR ''r'' then Some (CHR 0x0D)
                      else if e = CHR ''t'' then Some (CHR 0x09)
                      else None) of
                  None \<Rightarrow> None
                | Some d \<Rightarrow> map_option (\<lambda>(s, t). (d # s, t)) (parse_chars r1)))
      else if (of_char c :: nat) < 32 then None
      else map_option (\<lambda>(s, t). (c # s, t)) (parse_chars r))"

text \<open>An integer: an optional minus sign and digits with no leading zero.\<close>

definition parse_number :: "string \<Rightarrow> (int \<times> string) option" where
  "parse_number s =
     (let neg = (s \<noteq> [] \<and> hd s = CHR ''-'');
          t = (if neg then tl s else s);
          ds = takeWhile is_digit t;
          r = dropWhile is_digit t;
          n = int (foldl (\<lambda>a c. 10 * a + digit_val c) 0 ds)
      in if ds = [] \<or> (length ds > 1 \<and> hd ds = CHR ''0'') then None
         else if r \<noteq> [] \<and> (hd r = CHR ''.'' \<or> hd r = CHR ''e'' \<or> hd r = CHR ''E'') then None
         else Some (if neg then - n else n, r))"

fun parse_value :: "nat \<Rightarrow> string \<Rightarrow> (json \<times> string) option"
  and parse_elements :: "nat \<Rightarrow> string \<Rightarrow> (json list \<times> string) option"
  and parse_members :: "nat \<Rightarrow> string \<Rightarrow> ((string \<times> json) list \<times> string) option"
where
  "parse_value 0 s = None"
| "parse_value (Suc n) s =
     (case s of
        [] \<Rightarrow> None
      | c # r \<Rightarrow>
          if starts_with s ''null'' then Some (JNull, drop 4 s)
          else if starts_with s ''true'' then Some (JBool True, drop 4 s)
          else if starts_with s ''false'' then Some (JBool False, drop 5 s)
          else if c = CHR 0x22 then map_option (\<lambda>(str, t). (JStr str, t)) (parse_chars r)
          else if c = CHR ''['' then
            (if r \<noteq> [] \<and> hd r = CHR '']'' then Some (JArr [], tl r)
             else map_option (\<lambda>(xs, t). (JArr xs, t)) (parse_elements n r))
          else if c = CHR ''{'' then
            (if r \<noteq> [] \<and> hd r = CHR ''}'' then Some (JObj [], tl r)
             else map_option (\<lambda>(kvs, t). (JObj kvs, t)) (parse_members n r))
          else map_option (\<lambda>(i, t). (JNum i, t)) (parse_number s))"
| "parse_elements 0 s = None"
| "parse_elements (Suc n) s =
     (case parse_value n s of
        None \<Rightarrow> None
      | Some (v, r) \<Rightarrow>
          (case r of
             [] \<Rightarrow> None
           | c # r1 \<Rightarrow>
               if c = CHR '']'' then Some ([v], r1)
               else if c = CHR '','' then map_option (\<lambda>(vs, t). (v # vs, t)) (parse_elements n r1)
               else None))"
| "parse_members 0 s = None"
| "parse_members (Suc n) s =
     (case s of
        [] \<Rightarrow> None
      | q # r0 \<Rightarrow>
          if q \<noteq> CHR 0x22 then None
          else
            (case parse_chars r0 of
               None \<Rightarrow> None
             | Some (k, r1) \<Rightarrow>
                 (case r1 of
                    [] \<Rightarrow> None
                  | col # r2 \<Rightarrow>
                      if col \<noteq> CHR '':'' then None
                      else
                        (case parse_value n r2 of
                           None \<Rightarrow> None
                         | Some (v, r3) \<Rightarrow>
                             (case r3 of
                                [] \<Rightarrow> None
                              | c # r4 \<Rightarrow>
                                  if c = CHR ''}'' then Some ([(k, v)], r4)
                                  else if c = CHR '','' then
                                    map_option (\<lambda>(kvs, t). ((k, v) # kvs, t)) (parse_members n r4)
                                  else None)))))"

definition JSON_parse :: "string \<Rightarrow> json option" where
  "JSON_parse s = (case parse_value (length s) s of Some (j, []) \<Rightarrow> Some j | _ \<Rightarrow> None)"

text \<open>
  Words for the statements about \<^verbatim>\<open>JSON.parse\<close>: what may follow a value inside a
  text (nothing, a comma, or a closing bracket).
\<close>

definition follows :: "string \<Rightarrow> bool" where
  "follows r = (r = [] \<or> hd r = CHR '','' \<or> hd r = CHR '']'' \<or> hd r = CHR ''}'')"

subsection \<open>btoa, atob, TextEncoder, TextDecoder\<close>

definition b64_alphabet :: string where
  "b64_alphabet = ''ABCDEFGHIJKLMNOPQRSTUVWXYZabcdefghijklmnopqrstuvwxyz0123456789+/''"

definition b64_char :: "nat \<Rightarrow> char" where
  "b64_char n = b64_alphabet ! n"

definition b64_val :: "char \<Rightarrow> nat option" where
  "b64_val c = find_index (\<lambda>x. x = c) b64_alphabet"

text \<open>\<^verbatim>\<open>btoa\<close> of a string of bytes.\<close>

fun btoa :: "string \<Rightarrow> string" where
  "btoa [] = []"
| "btoa [a] =
     [b64_char ((of_char a :: nat) div 4), b64_char (((of_char a :: nat) mod 4) * 16),
      CHR ''='', CHR ''='']"
| "btoa [a, b] =
     [b64_char ((of_char a :: nat) div 4),
      b64_char (((of_char a :: nat) mod 4) * 16 + (of_char b :: nat) div 16),
      b64_char (((of_char b :: nat) mod 16) * 4), CHR ''='']"
| "btoa (a # b # c # r) =
     [b64_char ((of_char a :: nat) div 4),
      b64_char (((of_char a :: nat) mod 4) * 16 + (of_char b :: nat) div 16),
      b64_char (((of_char b :: nat) mod 16) * 4 + (of_char c :: nat) div 64),
      b64_char ((of_char c :: nat) mod 64)] @ btoa r"

text \<open>
  \<^verbatim>\<open>atob\<close> (forgiving base64 decoding): ASCII whitespace is dropped; when the length
  is a multiple of 4, one or two trailing \<^verbatim>\<open>=\<close> are dropped; a length that leaves
  remainder 1, or a character outside the alphabet, throws (\<open>None\<close>).
\<close>

definition is_ascii_whitespace :: "char \<Rightarrow> bool" where
  "is_ascii_whitespace c =
     (c = CHR 0x09 \<or> c = CHR 0x0A \<or> c = CHR 0x0C \<or> c = CHR 0x0D \<or> c = CHR 0x20)"

definition strip_padding :: "string \<Rightarrow> string" where
  "strip_padding t =
     (if length t mod 4 = 0 \<and> t \<noteq> [] \<and> last t = CHR ''='' then
        (if last (butlast t) = CHR ''='' then butlast (butlast t) else butlast t)
      else t)"

fun b64_decode :: "nat list \<Rightarrow> string" where
  "b64_decode (a # b # c # d # r) =
     [char_of (a * 4 + b div 16), char_of ((b mod 16) * 16 + c div 4), char_of ((c mod 4) * 64 + d)]
       @ b64_decode r"
| "b64_decode [a, b, c] = [char_of (a * 4 + b div 16), char_of ((b mod 16) * 16 + c div 4)]"
| "b64_decode [a, b] = [char_of (a * 4 + b div 16)]"
| "b64_decode [a] = []"
| "b64_decode [] = []"

definition atob :: "string \<Rightarrow> string option" where
  "atob s =
     (let t = strip_padding (filter (\<lambda>c. \<not> is_ascii_whitespace c) s)
      in if length t mod 4 = 1 \<or> list_ex (\<lambda>c. b64_val c = None) t then None
         else Some (b64_decode (map (\<lambda>c. the (b64_val c)) t)))"

text \<open>
  \<^verbatim>\<open>TextEncoder.encode\<close> (UTF-8) of a string of code units below 256, as the string of
  its bytes, and \<^verbatim>\<open>TextDecoder.decode\<close> back. A byte sequence that decodes to nothing
  below 256 cannot be held by the strings of this model; it decodes to the substitute
  character \<^verbatim>\<open>0x1A\<close> here.
\<close>

definition utf8_encode :: "string \<Rightarrow> string" where
  "utf8_encode s =
     concat (map (\<lambda>c. let n = (of_char c :: nat)
                       in if n < 128 then [c] else [char_of (192 + n div 64), char_of (128 + n mod 64)]) s)"

fun utf8_decode :: "string \<Rightarrow> string" where
  "utf8_decode [] = []"
| "utf8_decode [a] = (if (of_char a :: nat) < 128 then [a] else [CHR 0x1A])"
| "utf8_decode (a # b # r) =
     (let x = (of_char a :: nat); y = (of_char b :: nat)
      in if x < 128 then a # utf8_decode (b # r)
         else if (x = 194 \<or> x = 195) \<and> 128 \<le> y \<and> y < 192
         then char_of ((x - 192) * 64 + (y - 128)) # utf8_decode r
         else CHR 0x1A # utf8_decode (b # r))"

section \<open>error-handler.ts\<close>

datatype ErrorType =
    AUTHENTICATION
  | NETWORK
  | RATE_LIMIT
  | PARSING
  | CACHE
  | PERMISSION
  | TIMEOUT
  | UNKNOWN

text \<open>
  \<^verbatim>\<open>interface ExtensionError\<close>. The type parameter is the type of \<^verbatim>\<open>originalError\<close>:
  an optional \<^verbatim>\<open>Error\<close> in memory, its message or \<^verbatim>\<open>null\<close> once serialised for
  the durable log.
\<close>

record 'o extension_error =
  etype :: ErrorType
  emessage :: string
  originalError :: 'o
  ectx :: "(string \<times> json) list option"
  etimestamp :: int
  recoverable :: bool
  userMessage :: string
  suggestedAction :: "string option"

type_synonym ExtensionError = "js_error option extension_error"
type_synonym StoredError = "string option extension_error"

fun isRecoverable :: "ErrorType \<Rightarrow> bool" where
  "isRecoverable NETWORK = True"
| "isRecoverable TIMEOUT = True"
| "isRecoverable RATE_LIMIT = True"
| "isRecoverable AUTHENTICATION = False"
| "isRecoverable PERMISSION = False"
| "isRecoverable PARSING = True"
| "isRecoverable CACHE = True"
| "isRecoverable UNKNOWN = True"

fun getUserMessage :: "ErrorType \<Rightarrow> string \<Rightarrow> string" where
  "getUserMessage AUTHENTICATION m = ''Please log in to LinkedIn and try again.''"
| "getUserMessage NETWORK m = ''Network connection issue. Please check your internet connection.''"
| "getUserMessage RATE_LIMIT m = ''LinkedIn is limiting requests. Please wait a moment and try again.''"
| "getUserMessage PARSING m =
     ''Unable to process LinkedIn data. This may be due to changes in LinkedIn's interface.''"
| "getUserMessage CACHE m = ''Cache error occurred. Your data may need to be refreshed.''"
| "getUserMessage PERMISSION m =
     ''Extension permissions are required. Please check your browser settings.''"
| "getUserMessage TIMEOUT m = ''Request timed out. Please try again.''"
| "getUserMessage UNKNOWN m = ''An unexpected error occurred. Please try refreshing the page.''"

fun getSuggestedAction :: "ErrorType \<Rightarrow> string option" where
  "getSuggestedAction AUTHENTICATION = Some ''Navigate to LinkedIn and log in to your account''"
| "getSuggestedAction NETWORK = Some ''Check your internet connection and try again''"
| "getSuggestedAction RATE_LIMIT = Some ''Wait 5-10 minutes before making more requests''"
| "getSuggestedAction PARSING = Some ''Clear cache and refresh the extension''"
| "getSuggestedAction CACHE = Some ''Clear cache from the dashboard settings''"
| "getSuggestedAction PERMISSION = Some ''Check Chrome extension permissions in browser settings''"
| "getSuggestedAction TIMEOUT = Some ''Try again with a stable internet connection''"
| "getSuggestedAction UNKNOWN = Some ''Refresh the page or restart the extension''"

text \<open>
  The state of the class: the static \<^verbatim>\<open>errorLog\<close> array, and the array stored under
  the key \<^verbatim>\<open>critical_errors\<close> of \<^verbatim>\<open>chrome.storage.local\<close> (absent reads as empty:
  \<^verbatim>\<open>stored.critical_errors || []\<close>). Both hold the newest entry first. With them go
  the calls of \<^verbatim>\<open>storeCriticalError\<close> that are suspended at their first \<^verbatim>\<open>await\<close>,
  the oldest first: the error of each and the array its read returns.
\<close>

record eh_state =
  errorLog :: "ExtensionError list"
  critical_errors :: "StoredError list"
  storing :: "(ExtensionError \<times> StoredError list) list"

definition MAX_LOG_SIZE :: nat where
  "MAX_LOG_SIZE = 100"

text \<open>\<^verbatim>\<open>{ ...error, originalError: error.originalError?.message || null }\<close>\<close>

definition serializeError :: "ExtensionError \<Rightarrow> StoredError" where
  "serializeError e =
     \<lparr>etype = etype e, emessage = emessage e,
      originalError =
        (case originalError e of
           None \<Rightarrow> None
         | Some oe \<Rightarrow> if err_message oe = [] then None else Some (err_message oe)),
      ectx = ectx e, etimestamp = etimestamp e, recoverable = recoverable e,
      userMessage = userMessage e, suggestedAction = suggestedAction e\<rparr>"

text \<open>
  \<^verbatim>\<open>storeCriticalError\<close> is an \<^verbatim>\<open>async\<close> function that \<^verbatim>\<open>logError\<close> calls and does
  not await. Up to its first \<^verbatim>\<open>await\<close> it asks the storage for the stored array and
  is suspended; the storage answers in the order it is asked, so the array returned is
  the one stored when the call was made. The rest of the function runs in a later turn
  of the event loop, the oldest suspended call first: \<^verbatim>\<open>unshift\<close> the serialised error
  onto the array that was read, keep \<^verbatim>\<open>slice(0, 10)\<close>, write it back.
\<close>

definition storeCriticalError_start :: "ExtensionError \<Rightarrow> eh_state \<Rightarrow> eh_state" where
  "storeCriticalError_start e st = st\<lparr>storing := storing st @ [(e, critical_errors st)]\<rparr>"

definition storeCriticalError_finish :: "eh_state \<Rightarrow> eh_state" where
  "storeCriticalError_finish st =
     (case storing st of
        [] \<Rightarrow> st
      | (e, stored) # rest \<Rightarrow>
          (let criticalErrors = serializeError e # stored;
               limitedErrors = take 10 criticalErrors
           in st\<lparr>critical_errors := limitedErrors, storing := rest\<rparr>))"

definition logError :: "ExtensionError \<Rightarrow> eh_state \<Rightarrow> eh_state" where
  "logError e st =
     (let log1 = e # errorLog st;
          log2 = (if length log1 > MAX_LOG_SIZE then take MAX_LOG_SIZE log1 else log1);
          st1 = st\<lparr>errorLog := log2\<rparr>
      in if \<not> recoverable e then storeCriticalError_start e st1 else st1)"

text \<open>\<^verbatim>\<open>createError\<close>; the argument \<open>now\<close> is the value \<^verbatim>\<open>Date.now()\<close> returns.\<close>

definition mkError ::
  "ErrorType \<Rightarrow> string \<Rightarrow> js_error option \<Rightarrow> (string \<times> json) list option \<Rightarrow> int \<Rightarrow> ExtensionError"
where
  "mkError t msg orig c now =
     \<lparr>etype = t, emessage = msg, originalError = orig, ectx = c, etimestamp = now,
      recoverable = isRecoverable t, userMessage = getUserMessage t msg,
      suggestedAction = getSuggestedAction t\<rparr>"

definition createError ::
  "ErrorType \<Rightarrow> string \<Rightarrow> js_error option \<Rightarrow> (string \<times> json) list option \<Rightarrow> int
     \<Rightarrow> eh_state \<Rightarrow> ExtensionError \<times> eh_state"
where
  "createError t msg orig c now st =
     (let e = mkError t msg orig c now in (e, logError e st))"

definition handleNetworkError ::
  "js_error \<Rightarrow> (string \<times> json) list option \<Rightarrow> int \<Rightarrow> eh_state \<Rightarrow> ExtensionError \<times> eh_state"
where
  "handleNetworkError err c now st =
     (let errorType =
            (if str_includes (err_message err) ''timeout'' \<or> err_name err = ''AbortError''
             then TIMEOUT
             else if str_includes (err_message err) ''429''
                     \<or> str_includes (err_message err) ''rate limit''
             then RATE_LIMIT
             else NETWORK)
      in createError errorType (err_message err) (Some err) c now st)"

definition handleAuthError ::
  "string \<Rightarrow> (string \<times> json) list option \<Rightarrow> int \<Rightarrow> eh_state \<Rightarrow> ExtensionError \<times> eh_state"
where
  "handleAuthError msg c now st = createError AUTHENTICATION msg None c now st"

definition handleCacheError ::
  "js_error \<Rightarrow> (string \<times> json) list option \<Rightarrow> int \<Rightarrow> eh_state \<Rightarrow> ExtensionError \<times> eh_state"
where
  "handleCacheError err c now st = createError CACHE (err_message err) (Some err) c now st"

text \<open>
  What happens to the class, in order: a call of \<^verbatim>\<open>createError\<close>, given by its
  arguments and the clock value it reads, or the resumption of the oldest suspended
  \<^verbatim>\<open>storeCriticalError\<close>.
\<close>

record classification =
  c_type :: ErrorType
  c_message :: string
  c_original :: "js_error option"
  c_ctx :: "(string \<times> json) list option"
  c_now :: int

definition classified :: "classification \<Rightarrow> ExtensionError" where
  "classified c = mkError (c_type c) (c_message c) (c_original c) (c_ctx c) (c_now c)"

datatype handler_event = Classify classification | Resume

fun run_handler :: "handler_event list \<Rightarrow> eh_state \<Rightarrow> eh_state" where
  "run_handler [] st = st"
| "run_handler (Classify c # evs) st =
     run_handler evs
       (snd (createError (c_type c) (c_message c) (c_original c) (c_ctx c) (c_now c) st))"
| "run_handler (Resume # evs) st = run_handler evs (storeCriticalError_finish st)"

text \<open>Words for the statements: the classifications of a run, in order.\<close>

fun classifications :: "handler_event list \<Rightarrow> classification list" where
  "classifications [] = []"
| "classifications (Classify c # evs) = c # classifications evs"
| "classifications (Resume # evs) = classifications evs"

section \<open>cache-manager.ts\<close>

text \<open>
  A stored cache entry: \<^verbatim>\<open>CacheEntry<T> & { compressed?: boolean; size?: number }\<close>.
  The data is any JSON value (what \<^verbatim>\<open>chrome.storage.local\<close> can hold).
\<close>

record cache_entry =
  e_data :: json
  e_timestamp :: int
  e_ttl :: int
  e_compressed :: "bool option"
  e_size :: "nat option"

text \<open>
  \<^verbatim>\<open>chrome.storage.local\<close>, as far as the cache uses it: the entries by key, in the
  order \<^verbatim>\<open>get(null)\<close> lists them. \<^verbatim>\<open>set\<close> replaces the value of a key that is present
  and adds a new key at the end; \<^verbatim>\<open>remove\<close> takes a list of keys. The calls do not fail.
\<close>

type_synonym storage = "(string \<times> cache_entry) list"

definition storage_get :: "string \<Rightarrow> storage \<Rightarrow> cache_entry option" where
  "storage_get k st = map_of st k"

definition storage_set :: "string \<Rightarrow> cache_entry \<Rightarrow> storage \<Rightarrow> storage" where
  "storage_set k v st = AList.update k v st"

definition storage_remove :: "string list \<Rightarrow> storage \<Rightarrow> storage" where
  "storage_remove ks st = filter (\<lambda>(k, v). k \<notin> set ks) st"

definition CACHE_PREFIX :: string where
  "CACHE_PREFIX = ''linkedin_connections_''"

definition DEFAULT_TTL :: int where
  "DEFAULT_TTL = 5 * 60 * 1000"

definition MAX_CACHE_SIZE :: nat where
  "MAX_CACHE_SIZE = 5 * 1024 * 1024"

definition COMPRESSION_THRESHOLD :: nat where
  "COMPRESSION_THRESHOLD = 1024"

text \<open>The object that \<^verbatim>\<open>JSON.stringify\<close> sees: the properties that are present.\<close>

definition entry_to_json :: "cache_entry \<Rightarrow> json" where
  "entry_to_json e =
     JObj ([(''data'', e_data e), (''timestamp'', JNum (e_timestamp e)), (''ttl'', JNum (e_ttl e))]
           @ (case e_compressed e of None \<Rightarrow> [] | Some b \<Rightarrow> [(''compressed'', JBool b)])
           @ (case e_size e of None \<Rightarrow> [] | Some n \<Rightarrow> [(''size'', JNum (int n))]))"

text \<open>
  \<^verbatim>\<open>compressData\<close> and \<^verbatim>\<open>decompressData\<close>. The call
  \<^verbatim>\<open>String.fromCharCode(...compressed)\<close> passes one argument per byte, and the engine
  throws a \<^verbatim>\<open>RangeError\<close> when there are more than it accepts in one call; the
  \<^verbatim>\<open>catch\<close> then returns the text as it is. The bound is the engine's (V8 gives up at
  about 125 000 arguments, the exact number depends on its stack); no statement below
  depends on its value. \<^verbatim>\<open>btoa\<close> itself does not throw, the encoder yields bytes.
\<close>

definition maxArguments :: nat where
  "maxArguments = 125000"

definition compressData :: "string \<Rightarrow> string" where
  "compressData d =
     (let compressed = utf8_encode d
      in if length compressed > maxArguments then d else btoa compressed)"

definition decompressData :: "string \<Rightarrow> string" where
  "decompressData d = (case atob d of None \<Rightarrow> d | Some compressed \<Rightarrow> utf8_decode compressed)"

definition cache_remove :: "string \<Rightarrow> storage \<Rightarrow> storage" where
  "cache_remove key st = storage_remove [CACHE_PREFIX @ key] st"

definition cache_items :: "storage \<Rightarrow> storage" where
  "cache_items st = filter (\<lambda>(k, e). starts_with k CACHE_PREFIX) st"

record cache_stats =
  totalItems :: nat
  totalSize :: nat
  oldestEntry :: "int option"
  newestEntry :: "int option"
  expiredItems :: nat

text \<open>The body of the \<^verbatim>\<open>forEach\<close> of \<^verbatim>\<open>getCacheStats\<close>, for one entry.\<close>

definition stats_step :: "int \<Rightarrow> string \<times> cache_entry \<Rightarrow> cache_stats \<Rightarrow> cache_stats" where
  "stats_step now ke s =
     (let entry = snd ke;
          s1 = s\<lparr>totalSize :=
                    totalSize s +
                    (case e_size entry of
                       Some n \<Rightarrow> if n \<noteq> 0 then n else length (JSON_stringify (entry_to_json entry))
                     | None \<Rightarrow> length (JSON_stringify (entry_to_json entry)))\<rparr>
      in if e_timestamp entry \<noteq> 0 then
           (let s2 = (case oldestEntry s1 of
                        None \<Rightarrow> s1\<lparr>oldestEntry := Some (e_timestamp entry)\<rparr>
                      | Some t \<Rightarrow> if t = 0 \<or> e_timestamp entry < t
                                  then s1\<lparr>oldestEntry := Some (e_timestamp entry)\<rparr> else s1);
                s3 = (case newestEntry s2 of
                        None \<Rightarrow> s2\<lparr>newestEntry := Some (e_timestamp entry)\<rparr>
                      | Some t \<Rightarrow> if t = 0 \<or> e_timestamp entry > t
                                  then s2\<lparr>newestEntry := Some (e_timestamp entry)\<rparr> else s2)
            in if now - e_timestamp entry > e_ttl entry
               then s3\<lparr>expiredItems := Suc (expiredItems s3)\<rparr> else s3)
         else s1)"

definition getCacheStats :: "int \<Rightarrow> storage \<Rightarrow> cache_stats" where
  "getCacheStats now st =
     fold (stats_step now) (cache_items st)
       \<lparr>totalItems = length (cache_items st), totalSize = 0, oldestEntry = None,
        newestEntry = None, expiredItems = 0\<rparr>"

definition cleanupExpired :: "int \<Rightarrow> storage \<Rightarrow> nat \<times> storage" where
  "cleanupExpired now st =
     (let expiredKeys =
            map fst (filter (\<lambda>(k, entry). e_timestamp entry \<noteq> 0 \<and> e_ttl entry \<noteq> 0
                                            \<and> now - e_timestamp entry > e_ttl entry)
                       (cache_items st))
      in (length expiredKeys, storage_remove expiredKeys st))"

text \<open>\<^verbatim>\<open>sort\<close> by timestamp, ascending and stable, then \<^verbatim>\<open>slice(0, count)\<close>.\<close>

definition removeOldestItems :: "nat \<Rightarrow> storage \<Rightarrow> storage" where
  "removeOldestItems n st =
     (let cacheItems = take n (sort_key (\<lambda>(k, entry). e_timestamp entry) (cache_items st));
          keysToRemove = map fst cacheItems
      in storage_remove keysToRemove st)"

text \<open>
  \<^verbatim>\<open>Math.ceil(totalItems * 0.3)\<close> is the integer \<open>(3 * totalItems + 9) div 10\<close>: the
  floating-point product is exact on the multiples of 10 and off by far less than 0.1
  elsewhere.
\<close>

definition enforceStorageLimit :: "int \<Rightarrow> storage \<Rightarrow> storage" where
  "enforceStorageLimit now st =
     (let stats = getCacheStats now st
      in if totalSize stats > MAX_CACHE_SIZE then
           (let st1 = snd (cleanupExpired now st);
                updatedStats = getCacheStats now st1
            in if totalSize updatedStats > MAX_CACHE_SIZE
               then removeOldestItems ((3 * totalItems updatedStats + 9) div 10) st1
               else st1)
         else st)"

text \<open>\<^verbatim>\<open>CacheManager.set\<close>; \<open>now\<close> is the value of \<^verbatim>\<open>Date.now()\<close>.\<close>

definition cache_set :: "string \<Rightarrow> json \<Rightarrow> int \<Rightarrow> int \<Rightarrow> storage \<Rightarrow> storage" where
  "cache_set key d ttl now st =
     (let cacheEntry = \<lparr>e_data = d, e_timestamp = now, e_ttl = ttl, e_compressed = None,
                        e_size = None\<rparr>;
          st1 = enforceStorageLimit now st;
          serialized = JSON_stringify (entry_to_json cacheEntry);
          serializedData = (if length serialized > COMPRESSION_THRESHOLD
                            then compressData serialized else serialized)
      in storage_set (CACHE_PREFIX @ key)
           (cacheEntry\<lparr>e_compressed := Some (length serializedData > COMPRESSION_THRESHOLD),
                       e_size := Some (length serializedData)\<rparr>) st1)"

text \<open>
  \<^verbatim>\<open>CacheManager.get\<close>: the value returned (\<open>JNull\<close> is \<^verbatim>\<open>null\<close>, the miss) and the
  storage after the call. \<^verbatim>\<open>JSON.parse(...).data\<close> reads the property \<^verbatim>\<open>data\<close> of the
  parsed value; where \<^verbatim>\<open>JSON.parse\<close> throws, or the value is \<^verbatim>\<open>null\<close>, the \<^verbatim>\<open>catch\<close>
  returns \<^verbatim>\<open>null\<close>, and a missing property (\<^verbatim>\<open>undefined\<close>) reads as \<open>JNull\<close> too.
\<close>

definition data_property :: "json \<Rightarrow> json" where
  "data_property v = (case v of JObj kvs \<Rightarrow> (case map_of kvs ''data'' of Some d \<Rightarrow> d | None \<Rightarrow> JNull)
                               | _ \<Rightarrow> JNull)"

definition cache_get :: "string \<Rightarrow> int \<Rightarrow> storage \<Rightarrow> json \<times> storage" where
  "cache_get key now st =
     (case storage_get (CACHE_PREFIX @ key) st of
        None \<Rightarrow> (JNull, st)
      | Some cacheEntry \<Rightarrow>
          if now - e_timestamp cacheEntry > e_ttl cacheEntry then (JNull, cache_remove key st)
          else if e_compressed cacheEntry = Some True then
            (case JSON_parse (decompressData (JSON_stringify (entry_to_json cacheEntry))) of
               None \<Rightarrow> (JNull, st)
             | Some parsed \<Rightarrow> (data_property parsed, st))
          else (e_data cacheEntry, st))"

text \<open>
  Words for the statements about the cache: the entry that \<^verbatim>\<open>set\<close> writes, and the
  size \<^verbatim>\<open>getCacheStats\<close> counts for an entry.
\<close>

definition written_entry :: "json \<Rightarrow> int \<Rightarrow> int \<Rightarrow> cache_entry" where
  "written_entry d ttl now =
     (let cacheEntry = \<lparr>e_data = d, e_timestamp = now, e_ttl = ttl, e_compressed = None,
                        e_size = None\<rparr>;
          serialized = JSON_stringify (entry_to_json cacheEntry);
          serializedData = (if length serialized > COMPRESSION_THRESHOLD
                            then compressData serialized else serialized)
      in cacheEntry\<lparr>e_compressed := Some (length serializedData > COMPRESSION_THRESHOLD),
                    e_size := Some (length serializedData)\<rparr>)"

definition entry_bytes :: "cache_entry \<Rightarrow> nat" where
  "entry_bytes entry =
     (case e_size entry of
        Some n \<Rightarrow> if n \<noteq> 0 then n else length (JSON_stringify (entry_to_json entry))
      | None \<Rightarrow> length (JSON_stringify (entry_to_json entry)))"

section \<open>request-queue.ts\<close>

record QueueStats =
  totalRequests :: nat
  successfulRequests :: nat
  failedRequests :: nat
  averageResponseTime :: int
  queueLength :: nat
  statsIsProcessing :: bool
  rateLimitHits :: nat

record RequestOptions =
  opt_priority :: "int option"
  opt_timeout :: "int option"
  opt_retryDelay :: "int option"
  opt_headers :: "(string \<times> string) list option"

text \<open>
  \<^verbatim>\<open>EnhancedRequestQueueItem\<close>. The closures \<^verbatim>\<open>resolve\<close> and \<^verbatim>\<open>reject\<close> of the promise
  that \<^verbatim>\<open>enqueue\<close> returns are the number \<open>handle\<close>: calling one of them is recorded
  under that number in the field \<open>settled\<close> of the queue.
\<close>

record RequestItem =
  url :: string
  handle :: nat
  retries :: nat
  priority :: int
  startTime :: "int option"
  timeout :: int
  retryDelay :: int
  headers :: "(string \<times> string) list"

text \<open>
  What the network gives one \<^verbatim>\<open>fetch\<close>: the call throws (a network failure, or the
  \<^verbatim>\<open>AbortError\<close> of the timeout), or a response arrives with its status, status
  text, \<^verbatim>\<open>retry-after\<close> header and the outcome of \<^verbatim>\<open>response.json()\<close>.
  The header is read as the code reads it: absent or empty (falsy), a string that
  \<^verbatim>\<open>Number.parseInt\<close> reads as an integer, or one it reads as \<^verbatim>\<open>NaN\<close>.
\<close>

datatype retry_after = NoHeader | Seconds int | Unparsable

datatype fetch_result =
    FetchThrows js_error
  | Response nat string retry_after "js_error + json"

text \<open>
  What the environment supplies to one pass of the worker: the two random draws
  (\<^verbatim>\<open>Math.random() * (maxDelay - minDelay)\<close> and \<^verbatim>\<open>Math.random() * 1000\<close>), the
  outcome of the fetch and the time it took.
\<close>

record pass_env =
  rnd_delay :: int
  fetched :: fetch_result
  latency :: int
  rnd_retry :: int

text \<open>
  The fields of the class, with the clock (\<^verbatim>\<open>Date.now()\<close>; \<^verbatim>\<open>sleep\<close> advances it), the
  item held by a suspended \<^verbatim>\<open>processQueue\<close>, the calls of \<^verbatim>\<open>resolve\<close> and \<^verbatim>\<open>reject\<close> so
  far, the items in the order their requests were sent, and the next unused handle.
\<close>

record RequestQueue =
  queue :: "RequestItem list"
  isProcessing :: bool
  stats :: QueueStats
  responseTimes :: "int list"
  lastRequestTime :: int
  rateLimitBackoff :: jsnum
  clock :: int
  inflight :: "RequestItem option"
  settled :: "(nat \<times> (js_error + json)) list"
  dispatched :: "RequestItem list"
  nextHandle :: nat

definition minDelay :: int where "minDelay = 300"
definition maxDelay :: int where "maxDelay = 1000"
definition maxRetries :: nat where "maxRetries = 3"
definition defaultTimeout :: int where "defaultTimeout = 30000"

definition new_RequestQueue :: "int \<Rightarrow> RequestQueue" where
  "new_RequestQueue now =
     \<lparr>queue = [], isProcessing = False,
      stats = \<lparr>totalRequests = 0, successfulRequests = 0, failedRequests = 0,
               averageResponseTime = 0, queueLength = 0, statsIsProcessing = False,
               rateLimitHits = 0\<rparr>,
      responseTimes = [], lastRequestTime = 0, rateLimitBackoff = Num 0,
      clock = now, inflight = None, settled = [], dispatched = [], nextHandle = 0\<rparr>"

text \<open>\<^verbatim>\<open>sleep(ms)\<close>: a timer with a delay that is not positive fires at once.\<close>

definition sleep :: "int \<Rightarrow> RequestQueue \<Rightarrow> RequestQueue" where
  "sleep ms q = q\<lparr>clock := clock q + max 0 ms\<rparr>"

text \<open>\<^verbatim>\<open>findIndex\<close>, then \<^verbatim>\<open>push\<close> or \<^verbatim>\<open>splice(insertIndex, 0, item)\<close>.\<close>

definition insert_item :: "RequestItem \<Rightarrow> RequestItem list \<Rightarrow> RequestItem list" where
  "insert_item item qs =
     (case find_index (\<lambda>queueItem. priority queueItem < priority item) qs of
        None \<Rightarrow> qs @ [item]
      | Some insertIndex \<Rightarrow> take insertIndex qs @ item # drop insertIndex qs)"

text \<open>\<^verbatim>\<open>a || b\<close> on an optional number: the default also replaces 0.\<close>

definition or_default :: "int option \<Rightarrow> int \<Rightarrow> int" where
  "or_default v d = (case v of None \<Rightarrow> d | Some n \<Rightarrow> if n = 0 then d else n)"

text \<open>
  \<^verbatim>\<open>processQueue\<close> up to its first \<^verbatim>\<open>await\<close>: an empty queue stops the worker, otherwise
  the head is taken off the queue.
\<close>

definition processQueue_start :: "RequestQueue \<Rightarrow> RequestQueue" where
  "processQueue_start q =
     (case queue q of
        [] \<Rightarrow> q\<lparr>isProcessing := False, stats := (stats q)\<lparr>statsIsProcessing := False\<rparr>\<rparr>
      | item # rest \<Rightarrow>
          q\<lparr>isProcessing := True, queue := rest, inflight := Some item,
            stats := (stats q)\<lparr>statsIsProcessing := True, queueLength := length rest\<rparr>\<rparr>)"

definition enqueue :: "string \<Rightarrow> RequestOptions \<Rightarrow> RequestQueue \<Rightarrow> RequestQueue" where
  "enqueue u options q =
     (let item = \<lparr>url = u, handle = nextHandle q, retries = 0,
                   priority = or_default (opt_priority options) 0,
                   startTime = None,
                   timeout = or_default (opt_timeout options) defaultTimeout,
                   retryDelay = or_default (opt_retryDelay options) 1000,
                   headers = (case opt_headers options of None \<Rightarrow> [] | Some h \<Rightarrow> h)\<rparr>;
          qs = insert_item item (queue q);
          q1 = q\<lparr>queue := qs, nextHandle := Suc (nextHandle q),
                 stats := (stats q)\<lparr>totalRequests := Suc (totalRequests (stats q)),
                                    queueLength := length qs\<rparr>\<rparr>
      in if \<not> isProcessing q1 then processQueue_start q1 else q1)"

text \<open>
  \<^verbatim>\<open>makeRequest\<close>: the result is the thrown error or the parsed body. A status 429
  raises the shared backoff before the error is thrown.
\<close>

definition response_ok :: "nat \<Rightarrow> bool" where
  "response_ok status = (200 \<le> status \<and> status \<le> 299)"

definition makeRequest ::
  "RequestItem \<Rightarrow> fetch_result \<Rightarrow> RequestQueue \<Rightarrow> (js_error + json) \<times> RequestQueue"
where
  "makeRequest item r q =
     (case r of
        FetchThrows e \<Rightarrow> (Inl e, q)
      | Response status statusText retryAfter body \<Rightarrow>
          if status = 429 then
            (let backoffTime =
                   (case retryAfter of
                      NoHeader \<Rightarrow> Num 5000
                    | Seconds n \<Rightarrow> Num (n * 1000)
                    | Unparsable \<Rightarrow> NaN);
                 q1 = q\<lparr>stats := (stats q)\<lparr>rateLimitHits := Suc (rateLimitHits (stats q))\<rparr>,
                        rateLimitBackoff := js_max (rateLimitBackoff q) backoffTime\<rparr>
             in (Inl \<lparr>err_name = ''Error'',
                      err_message = ''Rate limited. Retry after '' @ show_jsnum backoffTime @ ''ms''\<rparr>,
                 q1))
          else if \<not> response_ok status then
            (Inl \<lparr>err_name = ''Error'',
                  err_message = ''HTTP '' @ show_int (int status) @ '': '' @ statusText\<rparr>, q)
          else (body, q))"

definition isRateLimit :: "js_error \<Rightarrow> bool" where
  "isRateLimit e = str_includes (err_message e) ''Rate limited''"

definition isTimeout :: "js_error \<Rightarrow> bool" where
  "isTimeout e = (err_name e = ''AbortError'')"

definition isNetworkError :: "js_error \<Rightarrow> bool" where
  "isNetworkError e = str_includes (err_message e) ''fetch''"

definition handleRequestError :: "RequestItem \<Rightarrow> js_error \<Rightarrow> int \<Rightarrow> RequestQueue \<Rightarrow> RequestQueue" where
  "handleRequestError item e rnd q =
     (if retries item < maxRetries \<and> (isRateLimit e \<or> isTimeout e \<or> isNetworkError e) then
        (let item1 = item\<lparr>retries := Suc (retries item)\<rparr>;
             backoffDelay = retryDelay item1 * 2 ^ (retries item1 - 1);
             jitteredDelay = backoffDelay + rnd;
             q1 = sleep jitteredDelay q;
             item2 = item1\<lparr>priority := priority item1 + 10\<rparr>;
             qs = insert_item item2 (queue q1)
         in q1\<lparr>queue := qs, stats := (stats q1)\<lparr>queueLength := length qs\<rparr>\<rparr>)
      else
        q\<lparr>stats := (stats q)\<lparr>failedRequests := Suc (failedRequests (stats q))\<rparr>,
          settled := settled q @ [(handle item, Inl e)]\<rparr>)"

text \<open>\<^verbatim>\<open>Math.round(sum / length)\<close> on integers: halves round up.\<close>

definition updateAverageResponseTime :: "RequestQueue \<Rightarrow> RequestQueue" where
  "updateAverageResponseTime q =
     (if length (responseTimes q) > 0 then
        (let total = sum_list (responseTimes q); n = int (length (responseTimes q))
         in q\<lparr>stats := (stats q)\<lparr>averageResponseTime := (2 * total + n) div (2 * n)\<rparr>\<rparr>)
      else q)"

text \<open>
  The rest of \<^verbatim>\<open>processQueue\<close>, for the item taken off the queue, block by block:
  the backoff sleep and its decay; the random delay since the last request; the request;
  and what follows its success (the response time joins a window of 100, the item's
  promise resolves) or its failure (\<^verbatim>\<open>handleRequestError\<close>). The last line of the source
  schedules the next \<^verbatim>\<open>processQueue\<close> 100 ms later; that is \<open>processQueue_next\<close>.
\<close>

definition apply_backoff :: "RequestQueue \<Rightarrow> RequestQueue" where
  "apply_backoff q =
     (if js_gt (rateLimitBackoff q) (Num 0) then
        (case rateLimitBackoff q of
           Num b \<Rightarrow> (sleep b q)\<lparr>rateLimitBackoff := js_max (Num 0) (Num (b - 1000))\<rparr>
         | NaN \<Rightarrow> q)
      else q)"

definition ensure_min_delay :: "int \<Rightarrow> RequestQueue \<Rightarrow> RequestQueue" where
  "ensure_min_delay rnd q =
     (let timeSinceLastRequest = clock q - lastRequestTime q;
          requiredDelay = rnd + minDelay
      in if timeSinceLastRequest < requiredDelay
         then sleep (requiredDelay - timeSinceLastRequest) q else q)"

definition request_succeeded :: "RequestItem \<Rightarrow> int \<Rightarrow> json \<Rightarrow> RequestQueue \<Rightarrow> RequestQueue" where
  "request_succeeded item responseTime response q =
     (let rts = responseTimes q @ [responseTime];
          rts1 = (if length rts > 100 then tl rts else rts);
          q1 = q\<lparr>responseTimes := rts1,
                 stats := (stats q)\<lparr>successfulRequests := Suc (successfulRequests (stats q))\<rparr>\<rparr>;
          q2 = updateAverageResponseTime q1
      in q2\<lparr>settled := settled q2 @ [(handle item, Inr response)]\<rparr>)"

definition processQueue_finish :: "pass_env \<Rightarrow> RequestQueue \<Rightarrow> RequestQueue" where
  "processQueue_finish env q =
     (case inflight q of
        None \<Rightarrow> q
      | Some item \<Rightarrow>
          (let q1 = apply_backoff (q\<lparr>inflight := None\<rparr>);
               q2 = ensure_min_delay (rnd_delay env) q1;
               item1 = item\<lparr>startTime := Some (clock q2)\<rparr>;
               q3 = q2\<lparr>lastRequestTime := clock q2, dispatched := dispatched q2 @ [item1]\<rparr>;
               (res, q4) = makeRequest item1 (fetched env) q3;
               q5 = sleep (latency env) q4
           in case res of
                Inr response \<Rightarrow> request_succeeded item1 (clock q5 - clock q2) response q5
              | Inl e \<Rightarrow> handleRequestError item1 e (rnd_retry env) q5))"

definition processQueue_next :: "RequestQueue \<Rightarrow> RequestQueue" where
  "processQueue_next q = processQueue_start (sleep 100 q)"

text \<open>
  One whole pass of the worker for the item in flight, and the start of the next one;
  and a run of passes, one per environment.
\<close>

definition pass :: "pass_env \<Rightarrow> RequestQueue \<Rightarrow> RequestQueue" where
  "pass env q = processQueue_next (processQueue_finish env q)"

fun passes :: "pass_env list \<Rightarrow> RequestQueue \<Rightarrow> RequestQueue" where
  "passes [] q = q"
| "passes (env # envs) q = passes envs (pass env q)"

text \<open>
  Words for the statements about the queue. The result of \<^verbatim>\<open>makeRequest\<close> does not
  depend on the state of the queue; \<open>request_outcome\<close> reads it off. An error is
  retryable when one of the three tests of \<^verbatim>\<open>handleRequestError\<close> holds. A response is
  a throttling response when its status is 429.
\<close>

definition request_outcome :: "RequestItem \<Rightarrow> fetch_result \<Rightarrow> js_error + json" where
  "request_outcome item r = fst (makeRequest item r (new_RequestQueue 0))"

definition retryable :: "js_error \<Rightarrow> bool" where
  "retryable e = (isRateLimit e \<or> isTimeout e \<or> isNetworkError e)"

definition succeeds :: "RequestItem \<Rightarrow> pass_env \<Rightarrow> bool" where
  "succeeds item env =
     (case request_outcome item (fetched env) of Inl e \<Rightarrow> False | Inr v \<Rightarrow> True)"

definition throttled :: "fetch_result \<Rightarrow> bool" where
  "throttled r = (case r of FetchThrows e \<Rightarrow> False | Response status statusText ra body \<Rightarrow> status = 429)"

text \<open>
  The order of dispatch the queue is kept in: higher priority first, and among equal
  priorities the item that was enqueued first (the one with the smaller handle).
\<close>

definition dispatches_before :: "RequestItem \<Rightarrow> RequestItem \<Rightarrow> bool" where
  "dispatches_before a b =
     (priority a > priority b \<or> (priority a = priority b \<and> handle a < handle b))"

definition queue_ordered :: "RequestQueue \<Rightarrow> bool" where
  "queue_ordered q =
     (sorted_wrt dispatches_before (queue q) \<and> list_all (\<lambda>i. handle i < nextHandle q) (queue q))"

text \<open>
  What happens to the queue, in order: a call of \<^verbatim>\<open>enqueue\<close>; the rest of
  \<^verbatim>\<open>processQueue\<close> for the item in flight, up to the timer it sets; that timer firing.
  A timer is pending exactly when the queue is processing and nothing is in flight. A
  call of \<^verbatim>\<open>enqueue\<close> made while the worker waits for the request in flight reads and
  writes the queue before the worker does again, as one made before that request.
\<close>

datatype queue_event = Enqueue string RequestOptions | Finish pass_env | Timer

definition timer_fires :: "RequestQueue \<Rightarrow> RequestQueue" where
  "timer_fires q = (if isProcessing q \<and> inflight q = None then processQueue_next q else q)"

fun run_queue :: "queue_event list \<Rightarrow> RequestQueue \<Rightarrow> RequestQueue" where
  "run_queue [] q = q"
| "run_queue (Enqueue u options # evs) q = run_queue evs (enqueue u options q)"
| "run_queue (Finish env # evs) q = run_queue evs (processQueue_finish env q)"
| "run_queue (Timer # evs) q = run_queue evs (timer_fires q)"

text \<open>
  Words for the statements about retries. The items that are still to be settled: the
  one in flight and the ones in the queue. The outcomes of the requests that a run sends
  for the item with handle \<open>h\<close>, in order, and the calls of \<^verbatim>\<open>resolve\<close> and \<^verbatim>\<open>reject\<close>
  made for it. The failures that are retried: the error of a response with status 429,
  the \<^verbatim>\<open>AbortError\<close> of the timeout, and an error whose message contains \<^verbatim>\<open>fetch\<close>, as
  that of a \<^verbatim>\<open>fetch\<close> that is rejected.
\<close>

definition waiting :: "RequestQueue \<Rightarrow> RequestItem list" where
  "waiting q = (case inflight q of None \<Rightarrow> [] | Some item \<Rightarrow> [item]) @ queue q"



definition transient :: "js_error \<Rightarrow> bool" where
  "transient e = (str_includes (err_message e) ''Rate limited''
                  \<or> err_name e = ''AbortError''
                  \<or> str_includes (err_message e) ''fetch'')"

text \<open>
  The states the queue can be in: the handles of the items to be settled are distinct
  and were given out by \<^verbatim>\<open>enqueue\<close>, and the queue is processing while an item is in
  flight.
\<close>

definition well_formed :: "RequestQueue \<Rightarrow> bool" where
  "well_formed q =
     (distinct (map handle (waiting q))
      \<and> (\<forall>i \<in> set (waiting q). handle i < nextHandle q)
      \<and> (inflight q \<noteq> None \<longrightarrow> isProcessing q))"



section \<open>linkedin-api.ts\<close>

text \<open>
  The outcome of the \<^verbatim>\<open>fetch\<close> of one batch of connections: the call rejects, or a
  response arrives with its status and status text. The third component is read only
  when the response is ok: what \<^verbatim>\<open>response.json()\<close> followed by
  \<^verbatim>\<open>parseConnectionsResponse\<close> gives, the error thrown by either or the list of
  connections. A connection is a JSON object, a property that is \<^verbatim>\<open>undefined\<close> being
  an absent one.
\<close>

datatype connections_response =
    NoResponse js_error
  | Http nat string "js_error + json list"

definition fetchConnections :: "connections_response \<Rightarrow> js_error + json list" where
  "fetchConnections r =
     (case r of
        NoResponse e \<Rightarrow> Inl e
      | Http status statusText parsed \<Rightarrow>
          if \<not> response_ok status
          then Inl \<lparr>err_name = ''Error'',
                    err_message = ''HTTP '' @ show_int (int status) @ '': '' @ statusText\<rparr>
          else parsed)"

section \<open>connections-service.ts\<close>

text \<open>
  What the service works on: \<^verbatim>\<open>chrome.storage.local\<close>, the state of \<^verbatim>\<open>ErrorHandler\<close>,
  the clock, and a record of what was done, in order: the batches requested (by their
  \<^verbatim>\<open>start\<close>) and the timers awaited (by their delay).
\<close>

datatype event = Requested nat | Slept int

record world =
  w_store :: storage
  w_errors :: eh_state
  w_clock :: int
  w_events :: "event list"

text \<open>
  What the environment supplies to one request of a batch: the outcome of the fetch, the
  time it took, and the draw \<^verbatim>\<open>Math.random() * 500\<close> (as whole milliseconds).
\<close>

record batch_env =
  replied :: connections_response
  elapsed :: int
  jitter :: int

definition pause :: "int \<Rightarrow> world \<Rightarrow> world" where
  "pause ms w = w\<lparr>w_clock := w_clock w + max 0 ms, w_events := w_events w @ [Slept ms]\<rparr>"

text \<open>The local variables of the loop of \<^verbatim>\<open>getAllConnections\<close>.\<close>

record loop_vars =
  allConnections :: "json list"
  start :: nat
  hasMore :: bool
  consecutiveFailures :: nat

definition CONNECTIONS_CACHE_KEY :: string where
  "CONNECTIONS_CACHE_KEY = ''connections''"

definition COMPANY_CACHE_PREFIX :: string where
  "COMPANY_CACHE_PREFIX = ''company_logo_''"

definition batchSize :: nat where
  "batchSize = 100"

definition maxConsecutiveFailures :: nat where
  "maxConsecutiveFailures = 3"

definition requests :: "world \<Rightarrow> nat" where
  "requests w = length (filter (\<lambda>ev. case ev of Requested s \<Rightarrow> True | Slept ms \<Rightarrow> False) (w_events w))"

text \<open>
  One turn of the \<^verbatim>\<open>while\<close> loop, entered with its condition true: the iteration
  ends and the loop goes on, or it leaves the loop (\<^verbatim>\<open>break\<close>), or it throws.
\<close>

datatype 'a turn = Next 'a | Leave 'a | Throw js_error 'a

definition batch_turn :: "batch_env \<Rightarrow> loop_vars \<times> world \<Rightarrow> (loop_vars \<times> world) turn" where
  "batch_turn a vw =
     (let v = fst vw;
          w1 = (snd vw)\<lparr>w_events := w_events (snd vw) @ [Requested (start v)],
                         w_clock := w_clock (snd vw) + max 0 (elapsed a)\<rparr>
      in case fetchConnections (replied a) of
           Inr connections \<Rightarrow>
             if length connections = 0 then Leave (v\<lparr>hasMore := False\<rparr>, w1)
             else
               (let v1 = v\<lparr>allConnections := allConnections v @ connections,
                           start := start v + batchSize,
                           consecutiveFailures := 0\<rparr>;
                    w2 = (if hasMore v1 then pause (500 + jitter a) w1 else w1)
                in if length (allConnections v1) \<ge> 1000 then Leave (v1, w2) else Next (v1, w2))
         | Inl batchError \<Rightarrow>
             (let v1 = v\<lparr>consecutiveFailures := consecutiveFailures v + 1\<rparr>;
                  handled = handleNetworkError batchError
                              (Some [(''batch'', JNum (int (start v1))),
                                     (''attempt'', JNum (int (consecutiveFailures v1)))])
                              (w_clock w1) (w_errors w1);
                  w2 = w1\<lparr>w_errors := snd handled\<rparr>
              in if consecutiveFailures v1 \<ge> maxConsecutiveFailures
                 then Throw \<lparr>err_name = ''Error'',
                             err_message = ''Failed to fetch connections after ''
                                           @ show_int (int maxConsecutiveFailures)
                                           @ '' consecutive failures''\<rparr> (v1, w2)
                 else Next (v1, pause (2000 * int (consecutiveFailures v1)) w2)))"

text \<open>
  The loop. The environment gives the \<open>k\<close>-th request its outcome. The result is the
  error thrown, if any, with the variables and the world at the end.
\<close>

function fetch_batches ::
  "(nat \<Rightarrow> batch_env) \<Rightarrow> loop_vars \<times> world \<Rightarrow> js_error option \<times> loop_vars \<times> world"
where
  "fetch_batches env vw =
     (if hasMore (fst vw) \<and> consecutiveFailures (fst vw) < maxConsecutiveFailures then
        (case batch_turn (env (requests (snd vw))) vw of
           Next vw' \<Rightarrow> fetch_batches env vw'
         | Leave vw' \<Rightarrow> (None, vw')
         | Throw e vw' \<Rightarrow> (Some e, vw'))
      else (None, vw))"
  by pat_completeness auto

termination
proof (relation "measure (\<lambda>(env, vw). (1000 - length (allConnections (fst vw))) * 3
                                        + (3 - consecutiveFailures (fst vw)))")
  show "wf (measure (\<lambda>(env :: nat \<Rightarrow> batch_env, vw :: loop_vars \<times> world).
                       (1000 - length (allConnections (fst vw))) * 3
                       + (3 - consecutiveFailures (fst vw))))"
    by simp
next
  fix env :: "nat \<Rightarrow> batch_env" and vw vw' :: "loop_vars \<times> world"
  assume cond: "hasMore (fst vw) \<and> consecutiveFailures (fst vw) < maxConsecutiveFailures"
    and turn: "batch_turn (env (requests (snd vw))) vw = Next vw'"
  define a where "a = env (requests (snd vw))"
  have "(1000 - length (allConnections (fst vw'))) * 3 + (3 - consecutiveFailures (fst vw'))
        < (1000 - length (allConnections (fst vw))) * 3 + (3 - consecutiveFailures (fst vw))"
  proof (cases "fetchConnections (replied a)")
    case (Inl batchError)
    with cond turn show ?thesis
      by (simp add: a_def [symmetric] batch_turn_def Let_def maxConsecutiveFailures_def
               split: if_splits) auto
  next
    case (Inr connections)
    with turn have ne: "connections \<noteq> []"
      and small: "length (allConnections (fst vw)) + length connections < 1000"
      and vars: "fst vw' = (fst vw)\<lparr>allConnections := allConnections (fst vw) @ connections,
                                       start := start (fst vw) + batchSize,
                                       consecutiveFailures := 0\<rparr>"
      by (auto simp: a_def [symmetric] batch_turn_def Let_def split: if_splits)
    from ne have pos: "0 < length connections" by simp
    have "length (allConnections (fst vw')) = length (allConnections (fst vw)) + length connections"
      and "consecutiveFailures (fst vw') = 0"
      unfolding vars by simp_all
    then show ?thesis
      using pos small cond unfolding maxConsecutiveFailures_def by arith
  qed
  then show "((env, vw'), (env, vw))
             \<in> measure (\<lambda>(env, vw). (1000 - length (allConnections (fst vw))) * 3
                                      + (3 - consecutiveFailures (fst vw)))"
    by simp
qed

text \<open>
  \<^verbatim>\<open>if (x)\<close> on a JSON value, and the property \<^verbatim>\<open>x.name\<close> of a value that is not
  \<^verbatim>\<open>null\<close> (\<open>None\<close> is \<^verbatim>\<open>undefined\<close>): only an object has properties of its own.
\<close>

fun js_truthy :: "json \<Rightarrow> bool" where
  "js_truthy JNull = False"
| "js_truthy (JBool b) = b"
| "js_truthy (JNum n) = (n \<noteq> 0)"
| "js_truthy (JStr s) = (s \<noteq> [])"
| "js_truthy (JArr xs) = True"
| "js_truthy (JObj kvs) = True"

fun get_property :: "json \<Rightarrow> string \<Rightarrow> json option" where
  "get_property (JObj kvs) name = map_of kvs name"
| "get_property v name = None"

text \<open>A value inside a template literal: \<^verbatim>\<open>String(x)\<close>.\<close>

fun js_string :: "json \<Rightarrow> string" where
  "js_string JNull = ''null''"
| "js_string (JBool b) = (if b then ''true'' else ''false'')"
| "js_string (JNum n) = show_int n"
| "js_string (JStr s) = s"
| "js_string (JArr xs) = join_comma (map (\<lambda>x. if x = JNull then [] else js_string x) xs)"
| "js_string (JObj kvs) = ''[object Object]''"

text \<open>
  The \<^verbatim>\<open>catch\<close> of \<^verbatim>\<open>getAllConnections\<close>: the error is classified by
  \<^verbatim>\<open>handleNetworkError\<close> and the classified error is thrown.
\<close>

definition rethrow_handled :: "js_error \<Rightarrow> world \<Rightarrow> (ExtensionError + json) \<times> world" where
  "rethrow_handled e w =
     (let handled = handleNetworkError e (Some [(''operation'', JStr ''get_all_connections'')])
                      (w_clock w) (w_errors w)
      in (Inl (fst handled), w\<lparr>w_errors := snd handled\<rparr>))"

definition no_connections :: js_error where
  "no_connections =
     \<lparr>err_name = ''Error'',
      err_message = ''No connections could be fetched. Please check your LinkedIn authentication.''\<rparr>"

text \<open>
  \<^verbatim>\<open>getAllConnections(forceRefresh)\<close>: the classified error thrown or the value
  returned, and the world after the call. \<^verbatim>\<open>CacheManager.get\<close> and \<^verbatim>\<open>set\<close> do not
  throw, so the two inner \<^verbatim>\<open>catch\<close> blocks are not entered. The task that fetches the
  company logos is started and not awaited: it has written nothing when the call
  returns.
\<close>

definition getAllConnections ::
  "bool \<Rightarrow> (nat \<Rightarrow> batch_env) \<Rightarrow> world \<Rightarrow> (ExtensionError + json) \<times> world"
where
  "getAllConnections forceRefresh env w =
     (let looked = (if \<not> forceRefresh then cache_get CONNECTIONS_CACHE_KEY (w_clock w) (w_store w)
                    else (JNull, w_store w));
          cachedConnections = fst looked;
          w1 = w\<lparr>w_store := snd looked\<rparr>
      in if \<not> forceRefresh \<and> js_truthy cachedConnections then (Inr cachedConnections, w1)
         else
           (case fetch_batches env
                   (\<lparr>allConnections = [], start = 0, hasMore = True, consecutiveFailures = 0\<rparr>, w1)
            of
              (Some e, v, w2) \<Rightarrow> rethrow_handled e w2
            | (None, v, w2) \<Rightarrow>
                if length (allConnections v) = 0 then rethrow_handled no_connections w2
                else (Inr (JArr (allConnections v)),
                      w2\<lparr>w_store := cache_set CONNECTIONS_CACHE_KEY (JArr (allConnections v))
                                       DEFAULT_TTL (w_clock w2) (w_store w2)\<rparr>)))"

text \<open>
  \<^verbatim>\<open>getConnectionsWithLogos\<close>. What it throws is the classified error of
  \<^verbatim>\<open>getAllConnections\<close> or a \<^verbatim>\<open>TypeError\<close> of the mapping (its message is the
  engine's).
\<close>

datatype thrown = Handled ExtensionError | Raised js_error

definition null_property :: js_error where
  "null_property =
     \<lparr>err_name = ''TypeError'', err_message = ''Cannot read properties of null''\<rparr>"

definition not_a_function :: js_error where
  "not_a_function =
     \<lparr>err_name = ''TypeError'', err_message = ''connections.map is not a function''\<rparr>"

text \<open>
  The callback of \<^verbatim>\<open>connections.map\<close> for one connection; \<open>now\<close> is the clock when the
  lookup checks the expiry. Reading a property of \<^verbatim>\<open>null\<close> throws; a value that is
  not an object has no property \<^verbatim>\<open>currentCompany\<close>. The spread copies the properties in
  order and \<^verbatim>\<open>companyLogo\<close> replaces the property of that name or comes last.
\<close>

definition enhance :: "int \<Rightarrow> json \<Rightarrow> storage \<Rightarrow> (js_error + json) \<times> storage" where
  "enhance now connection st =
     (case connection of
        JNull \<Rightarrow> (Inl null_property, st)
      | JObj kvs \<Rightarrow>
          (case map_of kvs ''currentCompany'' of
             None \<Rightarrow> (Inr connection, st)
           | Some currentCompany \<Rightarrow>
               if js_truthy currentCompany then
                 (let looked = cache_get (COMPANY_CACHE_PREFIX @ js_string currentCompany) now st;
                      cachedLogo = fst looked
                  in if js_truthy cachedLogo
                     then (Inr (JObj (AList.update ''companyLogo'' cachedLogo kvs)), snd looked)
                     else (Inr connection, snd looked))
               else (Inr connection, st))
      | _ \<Rightarrow> (Inr connection, st))"

text \<open>
  What the environment supplies to the lookup for the \<open>i\<close>-th connection: the clock it
  reads, and what the tasks that share the store (the logo task in the background) have
  done to it since the lookup before.
\<close>

record lookup_env =
  read_at :: int
  background :: "storage \<Rightarrow> storage"

fun enhance_from ::
  "(nat \<Rightarrow> lookup_env) \<Rightarrow> nat \<Rightarrow> json list \<Rightarrow> storage \<Rightarrow> (js_error + json) list \<times> storage"
where
  "enhance_from lenv i [] st = ([], st)"
| "enhance_from lenv i (connection # rest) st =
     (let r = enhance (read_at (lenv i)) connection (background (lenv i) st);
          rs = enhance_from lenv (Suc i) rest (snd r)
      in (fst r # fst rs, snd rs))"

text \<open>\<^verbatim>\<open>Promise.all\<close>: the values in order, or the first rejection.\<close>

fun promise_all :: "(js_error + 'a) list \<Rightarrow> js_error + 'a list" where
  "promise_all [] = Inr []"
| "promise_all (Inl e # rs) = Inl e"
| "promise_all (Inr x # rs) = (case promise_all rs of Inl e \<Rightarrow> Inl e | Inr xs \<Rightarrow> Inr (x # xs))"

definition getConnectionsWithLogos ::
  "(nat \<Rightarrow> batch_env) \<Rightarrow> (nat \<Rightarrow> lookup_env) \<Rightarrow> world \<Rightarrow> (thrown + json list) \<times> world"
where
  "getConnectionsWithLogos env lenv w =
     (case getAllConnections False env w of
        (Inl handledError, w1) \<Rightarrow> (Inl (Handled handledError), w1)
      | (Inr (JArr connections), w1) \<Rightarrow>
          (let rs = enhance_from lenv 0 connections (w_store w1)
           in (case promise_all (fst rs) of
                 Inl e \<Rightarrow> Inl (Raised e)
               | Inr enhancedConnections \<Rightarrow> Inr enhancedConnections,
               w1\<lparr>w_store := snd rs\<rparr>))
      | (Inr other, w1) \<Rightarrow> (Inl (Raised not_a_function), w1))"

text \<open>
  Words for the statements: the store that the lookup for the \<open>i\<close>-th connection reads,
  and the logo it finds there for a company.
\<close>

definition store_seen :: "(nat \<Rightarrow> lookup_env) \<Rightarrow> json list \<Rightarrow> storage \<Rightarrow> nat \<Rightarrow> storage" where
  "store_seen lenv connections st i =
     background (lenv i) (snd (enhance_from lenv 0 (take i connections) st))"

definition cached_logo :: "int \<Rightarrow> storage \<Rightarrow> json \<Rightarrow> json" where
  "cached_logo now st company = fst (cache_get (COMPANY_CACHE_PREFIX @ js_string company) now st)"

declare fetch_batches.simps [simp del]

text \<open>
  Words for the statements about the service: the error the loop throws, and the world
  after the lookup of the cached connections.
\<close>

definition failed_after_three :: js_error where
  "failed_after_three =
     \<lparr>err_name = ''Error'',
      err_message = ''Failed to fetch connections after 3 consecutive failures''\<rparr>"

definition after_lookup :: "bool \<Rightarrow> world \<Rightarrow> world" where
  "after_lookup forceRefresh w =
     w\<lparr>w_store := snd (if \<not> forceRefresh
                         then cache_get CONNECTIONS_CACHE_KEY (w_clock w) (w_store w)
                         else (JNull, w_store w))\<rparr>"

section \<open>Concrete inputs\<close>

definition c_auth :: classification where
  "c_auth = \<lparr>c_type = AUTHENTICATION, c_message = ''no session'', c_original = None,
             c_ctx = None, c_now = 1\<rparr>"

definition c_denied :: classification where
  "c_denied = \<lparr>c_type = PERMISSION, c_message = ''cookies permission missing'',
               c_original = None, c_ctx = None, c_now = 1\<rparr>"

definition c_net :: classification where
  "c_net = \<lparr>c_type = NETWORK, c_message = ''Failed to fetch'',
            c_original = Some \<lparr>err_name = ''TypeError'', err_message = ''Failed to fetch''\<rparr>,
            c_ctx = None, c_now = 2\<rparr>"

definition entry_flagged :: cache_entry where
  "entry_flagged = \<lparr>e_data = JStr ''logo.png'', e_timestamp = 1000, e_ttl = 300000,
                     e_compressed = Some True, e_size = Some 1400\<rparr>"

definition store_flagged :: storage where
  "store_flagged = [(''linkedin_connections_company_logo_acme'', entry_flagged)]"

definition conns1 :: json where
  "conns1 = JArr [JObj [(''id'', JStr ''1''), (''fullName'', JStr ''Ada Lovelace'')]]"







definition opts0 :: RequestOptions where
  "opts0 = \<lparr>opt_priority = None, opt_timeout = None, opt_retryDelay = None, opt_headers = None\<rparr>"

definition item_a :: RequestItem where
  "item_a = \<lparr>url = ''/voyager/api/a'', handle = 0, retries = 0, priority = 0, startTime = None,
             timeout = 30000, retryDelay = 1000, headers = []\<rparr>"

definition q_busy :: RequestQueue where
  "q_busy = enqueue ''/voyager/api/a'' opts0 (new_RequestQueue 1000)"

definition env_ok :: pass_env where
  "env_ok = \<lparr>rnd_delay = 350, fetched = Response 200 ''OK'' NoHeader (Inr JNull),
             latency = 40, rnd_retry = 500\<rparr>"

definition failed_to_fetch :: js_error where
  "failed_to_fetch = \<lparr>err_name = ''TypeError'', err_message = ''Failed to fetch''\<rparr>"

definition env_offline :: pass_env where
  "env_offline = \<lparr>rnd_delay = 350, fetched = FetchThrows failed_to_fetch,
                  latency = 40, rnd_retry = 500\<rparr>"

definition http_500 :: js_error where
  "http_500 = \<lparr>err_name = ''Error'', err_message = ''HTTP 500: Internal Server Error''\<rparr>"

definition env_500 :: pass_env where
  "env_500 = \<lparr>rnd_delay = 350,
              fetched = Response 500 ''Internal Server Error'' NoHeader (Inr JNull),
              latency = 40, rnd_retry = 500\<rparr>"

definition env_429 :: pass_env where
  "env_429 = \<lparr>rnd_delay = 350,
              fetched = Response 429 ''Too Many Requests'' (Seconds 7) (Inr JNull),
              latency = 40, rnd_retry = 500\<rparr>"








definition env_429_date :: pass_env where
  "env_429_date = \<lparr>rnd_delay = 350,
                   fetched = Response 429 ''Too Many Requests'' Unparsable (Inr JNull),
                   latency = 40, rnd_retry = 500\<rparr>"

definition vars0 :: loop_vars where
  "vars0 = \<lparr>allConnections = [], start = 0, hasMore = True, consecutiveFailures = 0\<rparr>"

definition world0 :: world where
  "world0 = \<lparr>w_store = [], w_errors = \<lparr>errorLog = [], critical_errors = [], storing = []\<rparr>, w_clock = 1000,
             w_events = []\<rparr>"

definition conn_ada :: json where
  "conn_ada = JObj [(''id'', JStr ''1''), (''fullName'', JStr ''Ada Lovelace''),
                    (''currentCompany'', JStr ''acme'')]"

definition conn_bob :: json where
  "conn_bob = JObj [(''id'', JStr ''2''), (''fullName'', JStr ''Bob Kahn'')]"

definition env_down :: "nat \<Rightarrow> batch_env" where
  "env_down k = \<lparr>replied = NoResponse failed_to_fetch, elapsed = 40, jitter = 250\<rparr>"

definition env_one :: "nat \<Rightarrow> batch_env" where
  "env_one k = \<lparr>replied = Http 200 ''OK'' (Inr [conn_ada]), elapsed = 40, jitter = 250\<rparr>"

definition env_401 :: "nat \<Rightarrow> batch_env" where
  "env_401 k =
     (if k = 0 then \<lparr>replied = Http 401 ''Unauthorized'' (Inr []), elapsed = 40, jitter = 250\<rparr>
      else if k = 1 then \<lparr>replied = Http 200 ''OK'' (Inr [conn_ada]), elapsed = 40, jitter = 250\<rparr>
      else \<lparr>replied = Http 200 ''OK'' (Inr []), elapsed = 40, jitter = 250\<rparr>)"

definition http_401 :: js_error where
  "http_401 = \<lparr>err_name = ''Error'', err_message = ''HTTP 401: Unauthorized''\<rparr>"

definition store_logos :: storage where
  "store_logos =
     [(''linkedin_connections_connections'',
       \<lparr>e_data = JArr [conn_ada, conn_bob], e_timestamp = 1000, e_ttl = 300000,
        e_compressed = Some False, e_size = Some 160\<rparr>),
      (''linkedin_connections_company_logo_acme'',
       \<lparr>e_data = JStr ''logo.png'', e_timestamp = 900, e_ttl = 86400000,
        e_compressed = Some False, e_size = Some 50\<rparr>)]"

definition world_logos :: world where
  "world_logos = \<lparr>w_store = store_logos, w_errors = \<lparr>errorLog = [], critical_errors = [], storing = []\<rparr>,
                  w_clock = 1500, w_events = []\<rparr>"

definition lenv_quiet :: "nat \<Rightarrow> lookup_env" where
  "lenv_quiet i = \<lparr>read_at = 1600, background = (\<lambda>st. st)\<rparr>"

section \<open>Properties of the JSON and base64 functions\<close>

lemma less_10_cases:
  "d < 10 \<Longrightarrow> d = 0 \<or> d = 1 \<or> d = 2 \<or> d = 3 \<or> d = 4 \<or> d = 5 \<or> d = 6 \<or> d = 7 \<or> d = 8 \<or> d = (9::nat)"
  by arith

lemma less_16_cases:
  "d < 16 \<Longrightarrow> d = 0 \<or> d = 1 \<or> d = 2 \<or> d = 3 \<or> d = 4 \<or> d = 5 \<or> d = 6 \<or> d = 7 \<or> d = 8 \<or> d = (9::nat)
     \<or> d = 10 \<or> d = 11 \<or> d = 12 \<or> d = 13 \<or> d = 14 \<or> d = 15"
  by arith

lemma digit_char_props:
  assumes "d < 10"
  shows "is_digit (digit_char d)" and "digit_val (digit_char d) = d"
    and "digit_char d \<noteq> CHR ''-''" and "(digit_char d = CHR ''0'') = (d = 0)"
  using less_10_cases [OF assms]
  by (auto simp: digit_char_def is_digit_def digit_val_def)

lemma hex_val_hex_char: "d < 16 \<Longrightarrow> hex_val (hex_char d) = Some d"
  using less_16_cases [of d]
  by (auto simp: hex_char_def hex_val_def)

lemma digits_of_nonempty: "digits_of n \<noteq> []"
  by (subst digits_of.simps) simp

lemma digits_of_digits: "c \<in> set (digits_of n) \<Longrightarrow> is_digit c"
proof (induction n arbitrary: c rule: digits_of.induct)
  case (1 n)
  show ?case
  proof (cases "n < 10")
    case True
    with "1.prems" show ?thesis
      by (subst (asm) digits_of.simps) (simp add: digit_char_props)
  next
    case False
    with "1.prems" have "c \<in> set (digits_of (n div 10)) \<or> c = digit_char (n mod 10)"
      by (subst (asm) digits_of.simps) auto
    then show ?thesis using "1.IH" [OF False] by (auto simp: digit_char_props)
  qed
qed

lemma digits_of_value: "foldl (\<lambda>a c. 10 * a + digit_val c) 0 (digits_of n) = n"
proof (induction n rule: digits_of.induct)
  case (1 n)
  show ?case
  proof (cases "n < 10")
    case True
    then show ?thesis by (subst digits_of.simps) (simp add: digit_char_props)
  next
    case False
    then show ?thesis using "1.IH" [OF False]
      by (subst digits_of.simps) (simp add: digit_char_props)
  qed
qed

lemma digits_of_hd: "0 < n \<Longrightarrow> hd (digits_of n) \<noteq> CHR ''0''"
proof (induction n rule: digits_of.induct)
  case (1 n)
  show ?case
  proof (cases "n < 10")
    case True
    with "1.prems" show ?thesis by (subst digits_of.simps) (simp add: digit_char_props)
  next
    case False
    then have "0 < n div 10" by simp
    from "1.IH" [OF False this] False show ?thesis
      by (subst digits_of.simps) (simp add: digits_of_nonempty)
  qed
qed

lemma digits_of_leading_zero: "\<not> (length (digits_of n) > 1 \<and> hd (digits_of n) = CHR ''0'')"
proof (cases "n = 0")
  case True
  then show ?thesis by (subst digits_of.simps, subst digits_of.simps) simp
next
  case False
  then show ?thesis using digits_of_hd [of n] by simp
qed

lemma follows_not_digit: "follows r \<Longrightarrow> r \<noteq> [] \<Longrightarrow> \<not> is_digit (hd r)"
  by (auto simp: follows_def is_digit_def)

lemma takeWhile_digits: "follows r \<Longrightarrow> takeWhile is_digit (digits_of n @ r) = digits_of n"
  by (cases r) (auto simp: takeWhile_append digits_of_digits dest: follows_not_digit)

lemma dropWhile_digits: "follows r \<Longrightarrow> dropWhile is_digit (digits_of n @ r) = r"
  by (cases r) (auto simp: dropWhile_append digits_of_digits dest: follows_not_digit)

lemma hd_digits_not_minus: "hd (digits_of n) \<noteq> CHR ''-''"
proof -
  have "hd (digits_of n) \<in> set (digits_of n)" by (simp add: digits_of_nonempty)
  then have "is_digit (hd (digits_of n))" by (rule digits_of_digits)
  then show ?thesis by (auto simp: is_digit_def)
qed

lemma parse_number_show_int:
  assumes "follows r"
  shows "parse_number (show_int i @ r) = Some (i, r)"
proof (cases "i < 0")
  case True
  have f: "\<not> (r \<noteq> [] \<and> (hd r = CHR ''.'' \<or> hd r = CHR ''e'' \<or> hd r = CHR ''E''))"
    using assms by (auto simp: follows_def)
  show ?thesis using True f digits_of_leading_zero [of "nat (- i)"]
    by (simp add: parse_number_def show_int_def Let_def takeWhile_digits [OF assms]
          dropWhile_digits [OF assms] digits_of_value digits_of_nonempty)
next
  case False
  have f: "\<not> (r \<noteq> [] \<and> (hd r = CHR ''.'' \<or> hd r = CHR ''e'' \<or> hd r = CHR ''E''))"
    using assms by (auto simp: follows_def)
  show ?thesis using False f digits_of_leading_zero [of "nat i"] hd_digits_not_minus [of "nat i"]
    by (simp add: parse_number_def show_int_def Let_def takeWhile_digits [OF assms]
          dropWhile_digits [OF assms] digits_of_value digits_of_nonempty)
qed


lemma parse_chars_quote_char:
  "parse_chars (quote_char c @ t) = map_option (\<lambda>(s, u). (c # s, u)) (parse_chars t)"
proof -
  consider (esc) "c = CHR 0x22 \<or> c = CHR 0x5C \<or> c = CHR 0x08 \<or> c = CHR 0x0C \<or> c = CHR 0x0A
                  \<or> c = CHR 0x0D \<or> c = CHR 0x09"
    | (ctl) "\<not> (c = CHR 0x22 \<or> c = CHR 0x5C \<or> c = CHR 0x08 \<or> c = CHR 0x0C \<or> c = CHR 0x0A
                  \<or> c = CHR 0x0D \<or> c = CHR 0x09)" "(of_char c :: nat) < 32"
    | (plain) "\<not> (c = CHR 0x22 \<or> c = CHR 0x5C \<or> c = CHR 0x08 \<or> c = CHR 0x0C \<or> c = CHR 0x0A
                  \<or> c = CHR 0x0D \<or> c = CHR 0x09)" "\<not> (of_char c :: nat) < 32"
    by blast
  then show ?thesis
  proof cases
    case esc
    then show ?thesis by (auto simp: quote_char_def)
  next
    case ctl
    have d: "(of_char c :: nat) div 16 < 16" "(of_char c :: nat) mod 16 < 16" using ctl(2) by simp_all
    have z: "hex_val (CHR ''0'') = Some 0" by (simp add: hex_val_def)
    have u: "CHR ''u'' \<noteq> CHR 0x22" by simp
    have "char_of (16 * ((of_char c :: nat) div 16) + (of_char c :: nat) mod 16) = c" by simp
    then show ?thesis using ctl
      by (simp add: quote_char_def hex_val_hex_char [OF d(1)] hex_val_hex_char [OF d(2)] z)
  next
    case plain
    then show ?thesis by (simp add: quote_char_def)
  qed
qed

lemma parse_chars_quoted:
  "parse_chars (concat (map quote_char s) @ CHR 0x22 # r) = Some (s, r)"
  by (induction s) (simp_all add: parse_chars_quote_char)

lemma json_quote_parse:
  "json_quote k @ r = CHR 0x22 # concat (map quote_char k) @ CHR 0x22 # r"
  by (simp add: json_quote_def)


lemma show_int_hd:
  "\<exists>c t. show_int i = c # t \<and> (c = CHR ''-'' \<or> is_digit c)"
proof (cases "i < 0")
  case True
  then show ?thesis by (simp add: show_int_def)
next
  case False
  obtain c t where ct: "digits_of (nat i) = c # t"
    using digits_of_nonempty [of "nat i"] by (cases "digits_of (nat i)") auto
  then have "is_digit c" using digits_of_digits [of c "nat i"] by simp
  with ct False show ?thesis by (simp add: show_int_def)
qed

lemma stringify_hd:
  "\<exists>c t. JSON_stringify j = c # t \<and> c \<noteq> CHR '']'' \<and> c \<noteq> CHR ''}''"
proof (cases j)
  case (JNum i)
  from show_int_hd [of i] obtain c t where "show_int i = c # t" "c = CHR ''-'' \<or> is_digit c"
    by blast
  then show ?thesis using JNum by (auto simp: is_digit_def)
qed (auto simp: json_quote_def)

lemma stringify_nonempty: "0 < length (JSON_stringify j)"
  using stringify_hd [of j] by auto

lemma parse_value_number:
  assumes "follows r"
  shows "parse_value (Suc n) (show_int i @ r) = Some (JNum i, r)"
proof -
  from show_int_hd [of i] obtain c t where ct: "show_int i = c # t" "c = CHR ''-'' \<or> is_digit c"
    by blast
  then have c: "c \<noteq> CHR ''n''" "c \<noteq> CHR ''t''" "c \<noteq> CHR ''f''" "c \<noteq> CHR 0x22"
    "c \<noteq> CHR ''[''" "c \<noteq> CHR ''{''"
    by (auto simp: is_digit_def)
  have "parse_value (Suc n) (c # t @ r) = map_option (\<lambda>(i, t). (JNum i, t)) (parse_number (c # t @ r))"
    using c by simp
  then show ?thesis using parse_number_show_int [OF assms, of i] ct(1) by simp
qed

lemma follows_simps: "follows (CHR '','' # r)" "follows (CHR '']'' # r)" "follows (CHR ''}'' # r)" "follows []"
  by (simp_all add: follows_def)

lemma join_comma_Cons:
  "join_comma (x # xs) = (if xs = [] then x else x @ CHR '','' # join_comma xs)"
  by (cases xs) simp_all

lemma parse_elements_join:
  assumes "\<And>x n r. x \<in> set xs \<Longrightarrow> length (JSON_stringify x) \<le> n \<Longrightarrow> follows r
             \<Longrightarrow> parse_value n (JSON_stringify x @ r) = Some (x, r)"
  shows "xs \<noteq> [] \<Longrightarrow> length (join_comma (map JSON_stringify xs)) < n
         \<Longrightarrow> parse_elements n (join_comma (map JSON_stringify xs) @ CHR '']'' # r) = Some (xs, r)"
  using assms
proof (induction xs arbitrary: n)
  case Nil
  then show ?case by simp
next
  case (Cons x xs)
  from Cons.prems(2) obtain m where n: "n = Suc m" by (cases n) auto
  show ?case
  proof (cases "xs = []")
    case True
    have "parse_value m (JSON_stringify x @ CHR '']'' # r) = Some (x, CHR '']'' # r)"
      using Cons.prems(2) True n by (intro Cons.prems(3)) (simp_all add: follows_simps)
    then show ?thesis using True n by simp
  next
    case False
    let ?rest = "join_comma (map JSON_stringify xs) @ CHR '']'' # r"
    have l: "length (JSON_stringify x) \<le> m" "length (join_comma (map JSON_stringify xs)) < m"
      using Cons.prems(2) False n stringify_nonempty [of x] by (simp_all add: join_comma_Cons)
    have v: "parse_value m (JSON_stringify x @ CHR '','' # ?rest) = Some (x, CHR '','' # ?rest)"
      using l(1) by (intro Cons.prems(3)) (simp_all add: follows_simps)
    have e: "parse_elements m ?rest = Some (xs, r)"
      using False l(2) Cons.prems(3) by (intro Cons.IH) simp_all
    show ?thesis using False n v e by (simp add: join_comma_Cons)
  qed
qed

lemma parse_members_join:
  assumes "\<And>k x n r. (k, x) \<in> set kvs \<Longrightarrow> length (JSON_stringify x) \<le> n \<Longrightarrow> follows r
             \<Longrightarrow> parse_value n (JSON_stringify x @ r) = Some (x, r)"
  shows "kvs \<noteq> []
         \<Longrightarrow> length (join_comma (map (\<lambda>(k, v). json_quote k @ CHR '':'' # JSON_stringify v) kvs)) < n
         \<Longrightarrow> parse_members n
               (join_comma (map (\<lambda>(k, v). json_quote k @ CHR '':'' # JSON_stringify v) kvs) @ CHR ''}'' # r)
             = Some (kvs, r)"
  using assms
proof (induction kvs arbitrary: n)
  case Nil
  then show ?case by simp
next
  case (Cons kv kvs)
  obtain k x where kv: "kv = (k, x)" by (cases kv)
  from Cons.prems(2) obtain m where n: "n = Suc m" by (cases n) auto
  let ?f = "\<lambda>(k, v). json_quote k @ CHR '':'' # JSON_stringify v"
  show ?case
  proof (cases "kvs = []")
    case True
    have "length (JSON_stringify x) \<le> m" using Cons.prems(2) True n kv by simp
    then have "parse_value m (JSON_stringify x @ CHR ''}'' # r) = Some (x, CHR ''}'' # r)"
      using kv by (intro Cons.prems(3) [of k]) (simp_all add: follows_simps)
    then show ?thesis using True n kv
      by (simp add: json_quote_def parse_chars_quoted)
  next
    case False
    let ?rest = "join_comma (map ?f kvs) @ CHR ''}'' # r"
    have l: "length (JSON_stringify x) \<le> m" "length (join_comma (map ?f kvs)) < m"
      using Cons.prems(2) False n kv by (simp_all add: join_comma_Cons)
    have v: "parse_value m (JSON_stringify x @ CHR '','' # ?rest) = Some (x, CHR '','' # ?rest)"
      using l(1) kv by (intro Cons.prems(3) [of k]) (simp_all add: follows_simps)
    have ih: "\<And>k x n r. (k, x) \<in> set kvs \<Longrightarrow> length (JSON_stringify x) \<le> n \<Longrightarrow> follows r
             \<Longrightarrow> parse_value n (JSON_stringify x @ r) = Some (x, r)"
      using Cons.prems(3) by (meson list.set_intros(2))
    have e: "parse_members m ?rest = Some (kvs, r)"
      using False l(2) ih by (rule Cons.IH)
    show ?thesis using False n v e kv
      by (simp add: join_comma_Cons json_quote_def parse_chars_quoted)
  qed
qed

theorem parse_value_stringify:
  "length (JSON_stringify j) \<le> n \<Longrightarrow> follows r
   \<Longrightarrow> parse_value n (JSON_stringify j @ r) = Some (j, r)"
proof (induction j arbitrary: n r)
  case JNull
  then obtain m where "n = Suc m" by (cases n) auto
  then show ?case by simp
next
  case (JBool b)
  then obtain m where "n = Suc m" by (cases n) (auto split: if_splits)
  then show ?case by (cases b) simp_all
next
  case (JNum i)
  then obtain m where "n = Suc m" using stringify_nonempty [of "JNum i"] by (cases n) auto
  then show ?case using parse_value_number [OF JNum.prems(2)] by simp
next
  case (JStr s)
  then obtain m where "n = Suc m" by (cases n) (auto simp: json_quote_def)
  then show ?case by (simp add: json_quote_def parse_chars_quoted)
next
  case (JArr xs)
  then obtain m where n: "n = Suc m" by (cases n) auto
  show ?case
  proof (cases "xs = []")
    case True
    then show ?thesis using n by simp
  next
    case False
    then obtain x xs' where xs: "xs = x # xs'" by (cases xs) auto
    from stringify_hd [of x] obtain c t where c: "JSON_stringify x = c # t" "c \<noteq> CHR '']''" by blast
    have h: "hd (join_comma (map JSON_stringify xs) @ CHR '']'' # r) = c"
      using xs c by (simp add: join_comma_Cons)
    have ne: "join_comma (map JSON_stringify xs) @ CHR '']'' # r \<noteq> []" by simp
    have l: "length (join_comma (map JSON_stringify xs)) < m"
      using JArr.prems(1) n by simp
    have "parse_elements m (join_comma (map JSON_stringify xs) @ CHR '']'' # r) = Some (xs, r)"
      using False l JArr.IH by (intro parse_elements_join) simp_all
    then show ?thesis using n h c(2) by simp
  qed
next
  case (JObj kvs)
  then obtain m where n: "n = Suc m" by (cases n) auto
  let ?f = "\<lambda>(k, v). json_quote k @ CHR '':'' # JSON_stringify v"
  show ?case
  proof (cases "kvs = []")
    case True
    then show ?thesis using n by simp
  next
    case False
    then obtain k x kvs' where kvs: "kvs = (k, x) # kvs'" by (cases kvs) auto
    have h: "hd (join_comma (map ?f kvs) @ CHR ''}'' # r) = CHR 0x22"
      using kvs by (simp add: join_comma_Cons json_quote_def)
    have l: "length (join_comma (map ?f kvs)) < m"
      using JObj.prems(1) n by simp
    have ih: "\<And>k x n r. (k, x) \<in> set kvs \<Longrightarrow> length (JSON_stringify x) \<le> n \<Longrightarrow> follows r
             \<Longrightarrow> parse_value n (JSON_stringify x @ r) = Some (x, r)"
    proof -
      fix k x n r
      assume a: "(k, x) \<in> set kvs" "length (JSON_stringify x) \<le> n" "follows r"
      have "x \<in> Basic_BNFs.snds (k, x)" by simp
      from JObj.IH [OF a(1) this a(2,3)]
      show "parse_value n (JSON_stringify x @ r) = Some (x, r)" .
    qed
    have "parse_members m (join_comma (map ?f kvs) @ CHR ''}'' # r) = Some (kvs, r)"
      using False l ih by (intro parse_members_join) simp_all
    then show ?thesis using n h by simp
  qed
qed

theorem JSON_parse_stringify: "JSON_parse (JSON_stringify j) = Some j"
  using parse_value_stringify [of j "length (JSON_stringify j)" "[]"]
  by (simp add: JSON_parse_def follows_simps)

lemma length_btoa: "length (btoa s) = 4 * ((length s + 2) div 3)"
proof (induction s rule: btoa.induct)
  case (4 a b c r)
  have "(length (a # b # c # r) + 2) div 3 = Suc ((length r + 2) div 3)" by simp
  with 4 show ?case by simp
qed simp_all

lemma length_utf8_encode: "length s \<le> length (utf8_encode s)"
  by (induction s) (simp_all add: utf8_encode_def Let_def)

lemma length_compress: "length s \<le> length (btoa (utf8_encode s))"
  using length_utf8_encode [of s] by (simp add: length_btoa)

lemma length_compressData: "length s \<le> length (compressData s)"
  using length_compress [of s] by (simp add: compressData_def Let_def)

lemma strip_padding_hd:
  assumes "t \<noteq> []" and "hd t \<noteq> CHR ''=''"
  shows "hd t \<in> set (strip_padding t)"
proof (cases "length t mod 4 = 0 \<and> last t = CHR ''=''")
  case False
  then show ?thesis using assms by (auto simp: strip_padding_def)
next
  case True
  then have "4 \<le> length t" using assms(1) by (cases t) (auto simp: mod_eq_0_iff_dvd dest: dvd_imp_le)
  then obtain a b c r where t: "t = a # b # c # r"
    by (cases t; cases "tl t"; cases "tl (tl t)") auto
  then have "r \<noteq> []" using \<open>4 \<le> length t\<close> by auto
  with t show ?thesis by (auto simp: strip_padding_def)
qed

lemma b64_val_brace: "b64_val (CHR ''{'') = None"
  by (simp add: b64_val_def b64_alphabet_def)

lemma atob_object_text: "atob (CHR ''{'' # s) = None"
proof -
  define u where "u = filter (\<lambda>c. \<not> is_ascii_whitespace c) s"
  have t: "filter (\<lambda>c. \<not> is_ascii_whitespace c) (CHR ''{'' # s) = CHR ''{'' # u"
    by (simp add: is_ascii_whitespace_def u_def)
  have "hd (CHR ''{'' # u) \<in> set (strip_padding (CHR ''{'' # u))"
    by (rule strip_padding_hd) simp_all
  then have "CHR ''{'' \<in> set (strip_padding (CHR ''{'' # u))" by simp
  then have "list_ex (\<lambda>c. b64_val c = None) (strip_padding (CHR ''{'' # u))"
    unfolding list_ex_iff using b64_val_brace by blast
  then show ?thesis unfolding atob_def Let_def t by simp
qed

section \<open>Properties of the cache\<close>


lemma stringify_object_text: "\<exists>t. JSON_stringify (JObj kvs) = CHR ''{'' # t"
  by simp

lemma decompress_entry_text:
  "decompressData (JSON_stringify (entry_to_json e)) = JSON_stringify (entry_to_json e)"
proof -
  obtain t where "JSON_stringify (entry_to_json e) = CHR ''{'' # t"
    unfolding entry_to_json_def using stringify_object_text by blast
  then show ?thesis by (simp add: decompressData_def atob_object_text)
qed

lemma data_property_entry: "data_property (entry_to_json e) = e_data e"
  by (simp add: data_property_def entry_to_json_def)

lemma payload_never_decodes: "atob (JSON_stringify (entry_to_json e)) = None"
proof -
  obtain t where "JSON_stringify (entry_to_json e) = CHR ''{'' # t"
    unfolding entry_to_json_def using stringify_object_text by blast
  then show ?thesis by (simp add: atob_object_text)
qed

lemma cache_get_hit:
  assumes "storage_get (CACHE_PREFIX @ key) st = Some e"
    and "now - e_timestamp e \<le> e_ttl e"
  shows "cache_get key now st = (e_data e, st)"
  using assms
  by (simp add: cache_get_def decompress_entry_text JSON_parse_stringify data_property_entry)

lemma cache_get_expired:
  assumes "storage_get (CACHE_PREFIX @ key) st = Some e"
    and "now - e_timestamp e > e_ttl e"
  shows "cache_get key now st = (JNull, cache_remove key st)"
  using assms by (simp add: cache_get_def)

lemma storage_get_remove: "storage_get k (storage_remove [k] st) = None"
  by (induction st) (auto simp: storage_get_def storage_remove_def)

lemma storage_get_set: "storage_get k (storage_set k v st) = Some v"
  by (simp add: storage_get_def storage_set_def update_conv')

lemma cache_set_eq:
  "cache_set key d ttl now st
     = storage_set (CACHE_PREFIX @ key) (written_entry d ttl now) (enforceStorageLimit now st)"
  by (simp add: cache_set_def written_entry_def Let_def)

lemma written_entry_fields:
  "e_data (written_entry d ttl now) = d"
  "e_timestamp (written_entry d ttl now) = now"
  "e_ttl (written_entry d ttl now) = ttl"
  by (simp_all add: written_entry_def Let_def)

lemma written_entry_compressed:
  "e_compressed (written_entry d ttl now)
     = Some (COMPRESSION_THRESHOLD
              < length (JSON_stringify (entry_to_json
                  \<lparr>e_data = d, e_timestamp = now, e_ttl = ttl, e_compressed = None, e_size = None\<rparr>)))"
  using length_compressData [of "JSON_stringify (entry_to_json
                  \<lparr>e_data = d, e_timestamp = now, e_ttl = ttl, e_compressed = None, e_size = None\<rparr>)"]
  by (simp add: written_entry_def Let_def)

lemma storage_get_cache_set:
  "storage_get (CACHE_PREFIX @ key) (cache_set key d ttl now st) = Some (written_entry d ttl now)"
  by (simp add: cache_set_eq storage_get_set)

subsection \<open>Sizes\<close>














lemma length_concat_quote: "length s \<le> length (concat (map quote_char s))"
proof (induction s)
  case (Cons c s)
  have "1 \<le> length (quote_char c)" by (simp add: quote_char_def)
  with Cons show ?case by simp
qed simp

lemma written_bytes_ge:
  "length s \<le> entry_bytes (written_entry (JStr s) ttl now)"
proof -
  let ?ser = "JSON_stringify (entry_to_json
                \<lparr>e_data = JStr s, e_timestamp = now, e_ttl = ttl, e_compressed = None, e_size = None\<rparr>)"
  have a: "length s \<le> length ?ser"
    using length_concat_quote [of s] by (simp add: entry_to_json_def json_quote_def)
  have b: "length ?ser \<le> length (compressData ?ser)"
    by (rule length_compressData)
  have c: "0 < length ?ser" by (rule stringify_nonempty)
  show ?thesis using a b c
    by (auto simp: entry_bytes_def written_entry_def Let_def)
qed



subsection \<open>What eviction removes\<close>







subsection \<open>The claims about the cache\<close>

lemma prefix_key: "CACHE_PREFIX @ ''company_logo_acme'' = ''linkedin_connections_company_logo_acme''"
  by (simp add: CACHE_PREFIX_def)

text \<open>
  C1. The time to live is a duration, \<open>0 \<le> ttl\<close>. A read at once after the write
  returns the data unchanged, and so does every read at a time \<open>now'\<close> with
  \<open>now' - now \<le> ttl\<close>, which leaves the storage untouched. This holds whether or not
  the entry is flagged as compressed; it is flagged exactly when its JSON text is longer
  than the threshold. Once \<open>now' - now > ttl\<close> the read is a miss and the entry is
  removed.
\<close>

theorem cache_round_trip:
  "(now' - now \<le> ttl
      \<longrightarrow> cache_get key now' (cache_set key d ttl now st) = (d, cache_set key d ttl now st))
   \<and> (0 \<le> ttl \<longrightarrow> fst (cache_get key now (cache_set key d ttl now st)) = d)
   \<and> (now' - now > ttl
      \<longrightarrow> fst (cache_get key now' (cache_set key d ttl now st)) = JNull
          \<and> storage_get (CACHE_PREFIX @ key)
                (snd (cache_get key now' (cache_set key d ttl now st))) = None)
   \<and> (\<exists>e. storage_get (CACHE_PREFIX @ key) (cache_set key d ttl now st) = Some e
          \<and> e_data e = d \<and> e_timestamp e = now \<and> e_ttl e = ttl
          \<and> e_compressed e
               = Some (COMPRESSION_THRESHOLD
                        < length (JSON_stringify (entry_to_json
                            \<lparr>e_data = d, e_timestamp = now, e_ttl = ttl, e_compressed = None,
                             e_size = None\<rparr>))))"
proof (intro conjI impI)
  assume "now' - now \<le> ttl"
  then show "cache_get key now' (cache_set key d ttl now st) = (d, cache_set key d ttl now st)"
    using cache_get_hit [OF storage_get_cache_set, of now' d ttl now key st]
    by (simp add: written_entry_fields)
next
  assume "0 \<le> ttl"
  then show "fst (cache_get key now (cache_set key d ttl now st)) = d"
    using cache_get_hit [OF storage_get_cache_set, of now d ttl now key st]
    by (simp add: written_entry_fields)
next
  assume a: "now' - now > ttl"
  then have g: "cache_get key now' (cache_set key d ttl now st)
               = (JNull, cache_remove key (cache_set key d ttl now st))"
    using cache_get_expired [OF storage_get_cache_set, of d ttl now now' key st]
    by (simp add: written_entry_fields)
  show "fst (cache_get key now' (cache_set key d ttl now st)) = JNull" by (simp add: g)
  show "storage_get (CACHE_PREFIX @ key)
          (snd (cache_get key now' (cache_set key d ttl now st))) = None"
    by (simp add: g cache_remove_def storage_get_remove)
next
  show "\<exists>e. storage_get (CACHE_PREFIX @ key) (cache_set key d ttl now st) = Some e
          \<and> e_data e = d \<and> e_timestamp e = now \<and> e_ttl e = ttl
          \<and> e_compressed e
               = Some (COMPRESSION_THRESHOLD
                        < length (JSON_stringify (entry_to_json
                            \<lparr>e_data = d, e_timestamp = now, e_ttl = ttl, e_compressed = None,
                             e_size = None\<rparr>)))"
    using storage_get_cache_set written_entry_fields written_entry_compressed by blast
qed

lemma big_entry_flagged:
  assumes "COMPRESSION_THRESHOLD < length s"
  shows "e_compressed (written_entry (JStr s) ttl now) = Some True"
proof -
  let ?ser = "JSON_stringify (entry_to_json
                \<lparr>e_data = JStr s, e_timestamp = now, e_ttl = ttl, e_compressed = None, e_size = None\<rparr>)"
  have "length s \<le> length ?ser"
    using length_concat_quote [of s] by (simp add: entry_to_json_def json_quote_def)
  with assms show ?thesis by (simp add: written_entry_compressed)
qed

theorem cache_round_trip_witness:
  "(2000::int) - 1000 \<le> 300000
   \<and> cache_get ''connections'' 2000 (cache_set ''connections'' conns1 300000 1000 [])
       = (conns1, cache_set ''connections'' conns1 300000 1000 [])
   \<and> (0::int) \<le> 300000
   \<and> fst (cache_get ''connections'' 1000
            (cache_set ''connections'' (JStr (replicate 2000 (CHR ''a''))) 300000 1000 []))
       = JStr (replicate 2000 (CHR ''a''))
   \<and> e_compressed (written_entry (JStr (replicate 2000 (CHR ''a''))) 300000 1000) = Some True
   \<and> fst (cache_get ''connections'' 1000
            (cache_set ''connections'' (JStr (replicate 5300000 (CHR ''a''))) 300000 1000 []))
       = JStr (replicate 5300000 (CHR ''a''))
   \<and> e_compressed (written_entry (JStr (replicate 5300000 (CHR ''a''))) 300000 1000) = Some True
   \<and> (400000::int) - 1000 > 300000
   \<and> fst (cache_get ''connections'' 400000 (cache_set ''connections'' conns1 300000 1000 [])) = JNull"
proof -
  note t1 = cache_round_trip [of 2000 1000 300000 "''connections''" conns1 "[]"]
  note t2 = cache_round_trip [of 1000 1000 300000 "''connections''" "JStr (replicate 2000 (CHR ''a''))" "[]"]
  note t3 = cache_round_trip [of 400000 1000 300000 "''connections''" conns1 "[]"]
  note t4 = cache_round_trip [of 1000 1000 300000 "''connections''"
      "JStr (replicate 5300000 (CHR ''a''))" "[]"]
  have a: "cache_get ''connections'' 2000 (cache_set ''connections'' conns1 300000 1000 [])
       = (conns1, cache_set ''connections'' conns1 300000 1000 [])" using t1 by simp
  have b: "fst (cache_get ''connections'' 1000
            (cache_set ''connections'' (JStr (replicate 2000 (CHR ''a''))) 300000 1000 []))
       = JStr (replicate 2000 (CHR ''a''))" using t2 by simp
  have c: "fst (cache_get ''connections'' 400000 (cache_set ''connections'' conns1 300000 1000 [])) = JNull"
    using t3 by simp
  have d: "e_compressed (written_entry (JStr (replicate 2000 (CHR ''a''))) 300000 1000) = Some True"
    by (rule big_entry_flagged) (simp add: COMPRESSION_THRESHOLD_def)
  have b': "fst (cache_get ''connections'' 1000
            (cache_set ''connections'' (JStr (replicate 5300000 (CHR ''a''))) 300000 1000 []))
       = JStr (replicate 5300000 (CHR ''a''))" using t4 by simp
  have d': "e_compressed (written_entry (JStr (replicate 5300000 (CHR ''a''))) 300000 1000) = Some True"
    by (rule big_entry_flagged) (simp add: COMPRESSION_THRESHOLD_def)
  from a b c d b' d' show ?thesis by simp
qed

lemma store_flagged_get:
  "storage_get (CACHE_PREFIX @ ''company_logo_acme'') store_flagged = Some entry_flagged"
  by (simp add: storage_get_def store_flagged_def CACHE_PREFIX_def)

text \<open>
  C8 (as amended). When the payload of an entry flagged as compressed does not decode,
  \<^verbatim>\<open>decompressData\<close> returns the payload as it is and the read goes on with it.
  \<^verbatim>\<open>get\<close> removes an entry only when it is expired: after the read of an entry that is
  not expired the store is as before, so the flagged entry is still there.
\<close>

theorem undecodable_payload_is_kept:
  assumes "storage_get (CACHE_PREFIX @ key) st = Some e"
      and "e_compressed e = Some True"
      and "atob (JSON_stringify (entry_to_json e)) = None"
      and "now - e_timestamp e \<le> e_ttl e"
  shows "decompressData (JSON_stringify (entry_to_json e)) = JSON_stringify (entry_to_json e)
         \<and> snd (cache_get key now st) = st
         \<and> storage_get (CACHE_PREFIX @ key) (snd (cache_get key now st)) = Some e
         \<and> (\<forall>key' now' st'. snd (cache_get key' now' st') \<noteq> st' \<longrightarrow>
               (\<exists>e'. storage_get (CACHE_PREFIX @ key') st' = Some e'
                      \<and> now' - e_timestamp e' > e_ttl e'))"
proof (intro conjI allI impI)
  show "decompressData (JSON_stringify (entry_to_json e)) = JSON_stringify (entry_to_json e)"
    using assms(3) by (simp add: decompressData_def)
  show kept: "snd (cache_get key now st) = st"
    using assms(1,4) by (simp add: cache_get_def split: option.splits)
  show "storage_get (CACHE_PREFIX @ key) (snd (cache_get key now st)) = Some e"
    using assms(1) by (simp add: kept)
next
  fix key' now' st'
  assume "snd (cache_get key' now' st') \<noteq> st'"
  then show "\<exists>e'. storage_get (CACHE_PREFIX @ key') st' = Some e'
                  \<and> now' - e_timestamp e' > e_ttl e'"
    by (auto simp: cache_get_def split: option.splits if_splits)
qed

theorem undecodable_payload_is_kept_witness:
  "storage_get (CACHE_PREFIX @ ''company_logo_acme'') store_flagged = Some entry_flagged
   \<and> e_compressed entry_flagged = Some True
   \<and> atob (JSON_stringify (entry_to_json entry_flagged)) = None
   \<and> 1500 - e_timestamp entry_flagged \<le> e_ttl entry_flagged
   \<and> snd (cache_get ''company_logo_acme'' 1500 store_flagged) = store_flagged
   \<and> storage_get (CACHE_PREFIX @ ''company_logo_acme'')
        (snd (cache_get ''company_logo_acme'' 1500 store_flagged)) = Some entry_flagged"
proof -
  have f: "e_compressed entry_flagged = Some True" "1500 - e_timestamp entry_flagged \<le> e_ttl entry_flagged"
    by (simp_all add: entry_flagged_def)
  have p: "atob (JSON_stringify (entry_to_json entry_flagged)) = None"
    by (rule payload_never_decodes)
  from undecodable_payload_is_kept [OF store_flagged_get f(1) p f(2)] store_flagged_get f p
  show ?thesis by simp
qed

theorem corrupt_entry_counterexample:
  "atob (JSON_stringify (entry_to_json entry_flagged)) = None
   \<and> e_compressed entry_flagged = Some True
   \<and> storage_get (CACHE_PREFIX @ ''company_logo_acme'') store_flagged = Some entry_flagged
   \<and> fst (cache_get ''company_logo_acme'' 1500 store_flagged) \<noteq> JNull
   \<and> storage_get (CACHE_PREFIX @ ''company_logo_acme'')
        (snd (cache_get ''company_logo_acme'' 1500 store_flagged)) \<noteq> None"
proof -
  have f: "e_compressed entry_flagged = Some True" "1500 - e_timestamp entry_flagged \<le> e_ttl entry_flagged"
    "e_data entry_flagged = JStr ''logo.png''"
    by (simp_all add: entry_flagged_def)
  have g: "cache_get ''company_logo_acme'' 1500 store_flagged = (JStr ''logo.png'', store_flagged)"
    using cache_get_hit [OF store_flagged_get f(2)] f(3) by simp
  show ?thesis using payload_never_decodes [of entry_flagged] f(1) store_flagged_get g by simp
qed















section \<open>Properties of the error classifier\<close>

lemma recoverable_classified: "recoverable (classified c) = isRecoverable (c_type c)"
  by (simp add: classified_def mkError_def)

lemma classify_step:
  "snd (createError (c_type c) (c_message c) (c_original c) (c_ctx c) (c_now c) st)
     = logError (classified c) st"
  by (simp add: createError_def classified_def Let_def)

lemma take_append_take: "take n (xs @ take n ys) = take n (xs @ ys)"
  by (simp add: min_def)

lemma errorLog_logError_eq:
  "length (errorLog st) \<le> MAX_LOG_SIZE \<Longrightarrow>
   errorLog (logError e st) = take MAX_LOG_SIZE (e # errorLog st)"
  by (auto simp: logError_def storeCriticalError_start_def Let_def)

lemma logError_stored:
  "critical_errors (logError e st) = critical_errors st"
  "storing (logError e st)
     = (if recoverable e then storing st else storing st @ [(e, critical_errors st)])"
  by (simp_all add: logError_def storeCriticalError_start_def Let_def)

lemma finish_fields:
  "errorLog (storeCriticalError_finish st) = errorLog st"
  "storing (storeCriticalError_finish st) = tl (storing st)"
  "critical_errors (storeCriticalError_finish st)
     = (case storing st of [] \<Rightarrow> critical_errors st
        | (e, stored) # rest \<Rightarrow> take 10 (serializeError e # stored))"
  by (simp_all add: storeCriticalError_finish_def Let_def split: list.splits prod.splits)

text \<open>
  What holds of the two logs in every run, however the suspended calls are resumed.
  The in-memory log is the newest 100 of all entries. The durable log has at most 10
  entries, and an entry that was not there before is a non-recoverable error.
\<close>

lemma errorLog_run:
  "length (errorLog st) \<le> MAX_LOG_SIZE \<Longrightarrow>
   errorLog (run_handler evs st)
     = take MAX_LOG_SIZE (rev (map classified (classifications evs)) @ errorLog st)"
proof (induction evs st rule: run_handler.induct)
  case (1 st)
  then show ?case by simp
next
  case (2 c evs st)
  let ?st = "logError (classified c) st"
  have len: "length (errorLog ?st) \<le> MAX_LOG_SIZE"
    using "2.prems" by (simp add: errorLog_logError_eq)
  have "errorLog (run_handler (Classify c # evs) st) = errorLog (run_handler evs ?st)"
    by (simp add: classify_step)
  also have "\<dots> = take MAX_LOG_SIZE (rev (map classified (classifications evs)) @ errorLog ?st)"
    using "2.IH" len by (simp add: classify_step)
  also have "\<dots> = take MAX_LOG_SIZE
                     (rev (map classified (classifications evs)) @ (classified c # errorLog st))"
    using "2.prems" by (simp only: errorLog_logError_eq take_append_take)
  finally show ?case by simp
next
  case (3 evs st)
  then show ?case by (simp add: finish_fields)
qed

lemma critical_bound_run:
  "length (critical_errors st) \<le> 10 \<Longrightarrow> length (critical_errors (run_handler evs st)) \<le> 10"
proof (induction evs st rule: run_handler.induct)
  case (1 st)
  then show ?case by simp
next
  case (2 c evs st)
  then show ?case by (simp add: classify_step logError_stored)
next
  case (3 evs st)
  have "length (critical_errors (storeCriticalError_finish st)) \<le> 10"
    using "3.prems" by (simp add: finish_fields split: list.splits prod.splits)
  then show ?case using "3.IH" by simp
qed

lemma critical_only_run:
  assumes "\<forall>x \<in> set (critical_errors st). \<not> recoverable x"
      and "\<forall>(e, stored) \<in> set (storing st). \<not> recoverable e \<and> (\<forall>x \<in> set stored. \<not> recoverable x)"
  shows "\<forall>x \<in> set (critical_errors (run_handler evs st)). \<not> recoverable x"
  using assms
proof (induction evs st rule: run_handler.induct)
  case (1 st)
  then show ?case by simp
next
  case (2 c evs st)
  have "\<forall>(e, stored) \<in> set (storing (logError (classified c) st)).
          \<not> recoverable e \<and> (\<forall>x \<in> set stored. \<not> recoverable x)"
    using "2.prems" by (auto simp: logError_stored)
  with "2.IH" "2.prems"(1) show ?case by (simp add: classify_step logError_stored)
next
  case (3 evs st)
  have a: "\<forall>x \<in> set (critical_errors (storeCriticalError_finish st)). \<not> recoverable x"
  proof (cases "storing st")
    case Nil
    with "3.prems"(1) show ?thesis by (simp add: finish_fields)
  next
    case (Cons p rest)
    obtain e stored where p: "p = (e, stored)" by (cases p)
    from "3.prems"(2) Cons p have "\<not> recoverable e" "\<forall>x \<in> set stored. \<not> recoverable x" by auto
    then have "\<forall>x \<in> set (serializeError e # stored). \<not> recoverable x"
      by (simp add: serializeError_def)
    then show ?thesis
      unfolding finish_fields Cons p by (auto dest: in_set_takeD)
  qed
  have b: "\<forall>(e, stored) \<in> set (storing (storeCriticalError_finish st)).
             \<not> recoverable e \<and> (\<forall>x \<in> set stored. \<not> recoverable x)"
    using "3.prems"(2) by (cases "storing st") (auto simp: finish_fields)
  from "3.IH" [OF a b] show ?case by simp
qed

text \<open>
  When every suspended call is resumed before the next classification, the durable log
  is the newest 10 of its entries with every non-recoverable classification added.
\<close>

lemma critical_one_by_one:
  "storing st = [] \<Longrightarrow> length (critical_errors st) \<le> 10 \<Longrightarrow>
   critical_errors (run_handler (concat (map (\<lambda>c. [Classify c, Resume]) cs)) st)
     = take 10 (rev (map serializeError (filter (\<lambda>e. \<not> recoverable e) (map classified cs)))
                @ critical_errors st)
   \<and> storing (run_handler (concat (map (\<lambda>c. [Classify c, Resume]) cs)) st) = []"
proof (induction cs arbitrary: st)
  case Nil
  then show ?case by simp
next
  case (Cons c cs)
  let ?st = "storeCriticalError_finish (logError (classified c) st)"
  have s: "storing ?st = []"
    using Cons.prems(1) by (simp add: finish_fields logError_stored)
  have cr: "critical_errors ?st
            = (if recoverable (classified c) then critical_errors st
               else take 10 (serializeError (classified c) # critical_errors st))"
    using Cons.prems(1) by (simp add: finish_fields logError_stored)
  have len: "length (critical_errors ?st) \<le> 10"
    using Cons.prems(2) by (simp add: cr)
  have step: "run_handler (concat (map (\<lambda>c. [Classify c, Resume]) (c # cs))) st
              = run_handler (concat (map (\<lambda>c. [Classify c, Resume]) cs)) ?st"
    by (simp add: classify_step)
  show ?case
  proof (cases "recoverable (classified c)")
    case True
    then show ?thesis using Cons.IH [OF s len] step cr by simp
  next
    case False
    have "critical_errors (run_handler (concat (map (\<lambda>c. [Classify c, Resume]) cs)) ?st)
            = take 10 (rev (map serializeError (filter (\<lambda>e. \<not> recoverable e) (map classified cs)))
                       @ take 10 (serializeError (classified c) # critical_errors st))"
      using Cons.IH [OF s len] False cr by simp
    then have "critical_errors (run_handler (concat (map (\<lambda>c. [Classify c, Resume]) cs)) ?st)
            = take 10 (rev (map serializeError (filter (\<lambda>e. \<not> recoverable e) (map classified cs)))
                       @ (serializeError (classified c) # critical_errors st))"
      by (simp only: take_append_take)
    then show ?thesis using False step Cons.IH [OF s len] by simp
  qed
qed

text \<open>
  C9. Two non-recoverable classifications made one after the other, before the first
  \<^verbatim>\<open>storeCriticalError\<close> is resumed: both calls read the stored array as it was, and
  the second write replaces the first. The durable log then holds the second error
  alone; the first was never appended. Resumed one by one, both are there. The
  in-memory log holds both in either case.
\<close>

theorem critical_error_lost:
  "\<not> recoverable (classified c_auth) \<and> \<not> recoverable (classified c_denied)
   \<and> critical_errors (run_handler [Classify c_auth, Classify c_denied, Resume, Resume]
                        \<lparr>errorLog = [], critical_errors = [], storing = []\<rparr>)
       = [serializeError (classified c_denied)]
   \<and> errorLog (run_handler [Classify c_auth, Classify c_denied, Resume, Resume]
                  \<lparr>errorLog = [], critical_errors = [], storing = []\<rparr>)
       = [classified c_denied, classified c_auth]
   \<and> critical_errors (run_handler [Classify c_auth, Resume, Classify c_denied, Resume]
                        \<lparr>errorLog = [], critical_errors = [], storing = []\<rparr>)
       = [serializeError (classified c_denied), serializeError (classified c_auth)]"
  by (simp add: createError_def classified_def mkError_def c_auth_def c_denied_def logError_def
                storeCriticalError_start_def storeCriticalError_finish_def Let_def
                MAX_LOG_SIZE_def)

section \<open>Properties of the request queue\<close>

lemma find_index_None: "find_index P xs = None \<longleftrightarrow> (\<forall>x\<in>set xs. \<not> P x)"
  by (induction xs) auto

lemma find_index_Some:
  "find_index P xs = Some i \<Longrightarrow> take i xs = takeWhile (\<lambda>x. \<not> P x) xs \<and> drop i xs = dropWhile (\<lambda>x. \<not> P x) xs"
  by (induction xs arbitrary: i) (auto split: if_splits)

lemma insert_item_eq:
  "insert_item item qs =
     takeWhile (\<lambda>x. priority item \<le> priority x) qs @ item # dropWhile (\<lambda>x. priority item \<le> priority x) qs"
proof (cases "find_index (\<lambda>x. priority x < priority item) qs")
  case None
  then have "\<forall>x\<in>set qs. priority item \<le> priority x"
    by (auto simp: find_index_None not_less)
  then have tw: "takeWhile (\<lambda>x. priority item \<le> priority x) qs = qs"
    and dw: "dropWhile (\<lambda>x. priority item \<le> priority x) qs = []"
    by (simp_all only: takeWhile_eq_all_conv dropWhile_eq_Nil_conv)
  show ?thesis unfolding insert_item_def None tw dw by simp
next
  case (Some i)
  from find_index_Some [OF Some] show ?thesis using Some
    by (simp add: insert_item_def not_less)
qed

lemma insert_item_sorted:
  assumes "sorted_wrt dispatches_before qs" and "\<forall>x\<in>set qs. handle x < handle item"
  shows "sorted_wrt dispatches_before (insert_item item qs)"
  using assms
proof (induction qs)
  case Nil
  then show ?case by (simp add: insert_item_eq)
next
  case (Cons a qs)
  then have ih: "sorted_wrt dispatches_before (insert_item item qs)" by simp
  show ?case
  proof (cases "priority item \<le> priority a")
    case True
    have "\<forall>x\<in>set (insert_item item qs). dispatches_before a x"
      using Cons.prems True by (auto simp: insert_item_eq dispatches_before_def dest: set_takeWhileD set_dropWhileD)
    with ih True show ?thesis by (simp add: insert_item_eq)
  next
    case False
    then have "\<forall>x\<in>set (a # qs). dispatches_before item x"
      using Cons.prems by (fastforce simp: dispatches_before_def)
    with Cons.prems False show ?thesis by (simp add: insert_item_eq)
  qed
qed

lemma set_insert_item: "set (insert_item item qs) = insert item (set qs)"
proof -
  let ?P = "\<lambda>x. priority item \<le> priority x"
  have "set (takeWhile ?P qs) \<union> set (dropWhile ?P qs) = set qs"
    by (metis set_append takeWhile_dropWhile_id)
  then show ?thesis unfolding insert_item_eq by auto
qed

lemma queue_ordered_enqueue:
  assumes "queue_ordered q"
  shows "queue_ordered (enqueue u options q)"
proof -
  let ?item = "\<lparr>url = u, handle = nextHandle q, retries = 0,
                   priority = or_default (opt_priority options) 0,
                   startTime = None,
                   timeout = or_default (opt_timeout options) defaultTimeout,
                   retryDelay = or_default (opt_retryDelay options) 1000,
                   headers = (case opt_headers options of None \<Rightarrow> [] | Some h \<Rightarrow> h)\<rparr>"
  let ?qs = "insert_item ?item (queue q)"
  have s: "sorted_wrt dispatches_before ?qs"
    using assms by (intro insert_item_sorted) (auto simp: queue_ordered_def list_all_iff)
  have b: "\<forall>i\<in>set ?qs. handle i < Suc (nextHandle q)"
    using assms by (auto simp: set_insert_item queue_ordered_def list_all_iff)
  show ?thesis
  proof (cases ?qs)
    case Nil
    then show ?thesis by (simp add: enqueue_def Let_def queue_ordered_def processQueue_start_def)
  next
    case (Cons a rest)
    with s b show ?thesis
      by (auto simp: enqueue_def Let_def queue_ordered_def processQueue_start_def list_all_iff)
  qed
qed

lemma fst_makeRequest: "fst (makeRequest item r q) = request_outcome item' r"
  by (simp add: makeRequest_def request_outcome_def Let_def split: fetch_result.splits)

lemma makeRequest_not_throttled: "\<not> throttled r \<Longrightarrow> snd (makeRequest item r q) = q"
  by (simp add: makeRequest_def throttled_def split: fetch_result.splits)

lemma makeRequest_frame:
  "queue (snd (makeRequest item r q)) = queue q"
  "settled (snd (makeRequest item r q)) = settled q"
  "dispatched (snd (makeRequest item r q)) = dispatched q"
  "clock (snd (makeRequest item r q)) = clock q"
  "inflight (snd (makeRequest item r q)) = inflight q"
  "isProcessing (snd (makeRequest item r q)) = isProcessing q"
  "nextHandle (snd (makeRequest item r q)) = nextHandle q"
  "lastRequestTime (snd (makeRequest item r q)) = lastRequestTime q"
  "responseTimes (snd (makeRequest item r q)) = responseTimes q"
  by (simp_all add: makeRequest_def Let_def split: fetch_result.splits)

lemma sleep_frame:
  "queue (sleep ms q) = queue q"
  "settled (sleep ms q) = settled q"
  "dispatched (sleep ms q) = dispatched q"
  "inflight (sleep ms q) = inflight q"
  "isProcessing (sleep ms q) = isProcessing q"
  "nextHandle (sleep ms q) = nextHandle q"
  "lastRequestTime (sleep ms q) = lastRequestTime q"
  "rateLimitBackoff (sleep ms q) = rateLimitBackoff q"
  "clock (sleep ms q) = clock q + max 0 ms"
  by (simp_all add: sleep_def)

lemma apply_backoff_frame:
  "queue (apply_backoff q) = queue q"
  "settled (apply_backoff q) = settled q"
  "dispatched (apply_backoff q) = dispatched q"
  "inflight (apply_backoff q) = inflight q"
  "isProcessing (apply_backoff q) = isProcessing q"
  "nextHandle (apply_backoff q) = nextHandle q"
  "lastRequestTime (apply_backoff q) = lastRequestTime q"
  by (simp_all add: apply_backoff_def sleep_def split: jsnum.splits)

lemma ensure_min_delay_frame:
  "queue (ensure_min_delay rnd q) = queue q"
  "settled (ensure_min_delay rnd q) = settled q"
  "dispatched (ensure_min_delay rnd q) = dispatched q"
  "inflight (ensure_min_delay rnd q) = inflight q"
  "isProcessing (ensure_min_delay rnd q) = isProcessing q"
  "nextHandle (ensure_min_delay rnd q) = nextHandle q"
  "lastRequestTime (ensure_min_delay rnd q) = lastRequestTime q"
  "rateLimitBackoff (ensure_min_delay rnd q) = rateLimitBackoff q"
  by (simp_all add: ensure_min_delay_def sleep_def Let_def)

lemma request_succeeded_frame:
  "queue (request_succeeded item rt v q) = queue q"
  "settled (request_succeeded item rt v q) = settled q @ [(handle item, Inr v)]"
  "dispatched (request_succeeded item rt v q) = dispatched q"
  "inflight (request_succeeded item rt v q) = inflight q"
  "isProcessing (request_succeeded item rt v q) = isProcessing q"
  "nextHandle (request_succeeded item rt v q) = nextHandle q"
  "lastRequestTime (request_succeeded item rt v q) = lastRequestTime q"
  "rateLimitBackoff (request_succeeded item rt v q) = rateLimitBackoff q"
  "clock (request_succeeded item rt v q) = clock q"
  by (simp_all add: request_succeeded_def updateAverageResponseTime_def Let_def)

lemma handle_frame:
  "rateLimitBackoff (handleRequestError item e rnd q) = rateLimitBackoff q"
  "lastRequestTime (handleRequestError item e rnd q) = lastRequestTime q"
  "dispatched (handleRequestError item e rnd q) = dispatched q"
  "inflight (handleRequestError item e rnd q) = inflight q"
  "isProcessing (handleRequestError item e rnd q) = isProcessing q"
  "nextHandle (handleRequestError item e rnd q) = nextHandle q"
  "clock q \<le> clock (handleRequestError item e rnd q)"
  by (simp_all add: handleRequestError_def Let_def sleep_def)

lemma handle_reject:
  "\<not> (retries item < maxRetries \<and> retryable e) \<Longrightarrow>
   handleRequestError item e rnd q =
     q\<lparr>stats := (stats q)\<lparr>failedRequests := Suc (failedRequests (stats q))\<rparr>,
       settled := settled q @ [(handle item, Inl e)]\<rparr>"
  by (auto simp: handleRequestError_def retryable_def)

lemma handle_retry:
  "retries item < maxRetries \<Longrightarrow> retryable e \<Longrightarrow>
   handleRequestError item e rnd q =
     (let item2 = item\<lparr>retries := Suc (retries item), priority := priority item + 10\<rparr>;
          q1 = sleep (retryDelay item * 2 ^ retries item + rnd) q;
          qs = insert_item item2 (queue q1)
      in q1\<lparr>queue := qs, stats := (stats q1)\<lparr>queueLength := length qs\<rparr>\<rparr>)"
  by (auto simp: handleRequestError_def retryable_def Let_def)

text \<open>The stages of one pass, named: the state in which the request is sent.\<close>

lemma finish_unfold:
  assumes "inflight q = Some item"
  shows "processQueue_finish env q =
     (let q2 = ensure_min_delay (rnd_delay env) (apply_backoff (q\<lparr>inflight := None\<rparr>));
          item1 = item\<lparr>startTime := Some (clock q2)\<rparr>;
          q3 = q2\<lparr>lastRequestTime := clock q2, dispatched := dispatched q2 @ [item1]\<rparr>;
          q5 = sleep (latency env) (snd (makeRequest item1 (fetched env) q3))
      in case request_outcome item (fetched env) of
           Inr response \<Rightarrow> request_succeeded item1 (clock q5 - clock q2) response q5
         | Inl e \<Rightarrow> handleRequestError item1 e (rnd_retry env) q5)"
  using assms
  by (simp add: processQueue_finish_def Let_def case_prod_beta fst_makeRequest [of _ _ _ item])

lemma finish_lastRequestTime:
  assumes "inflight q = Some item"
  shows "lastRequestTime (processQueue_finish env q)
           = clock (ensure_min_delay (rnd_delay env) (apply_backoff (q\<lparr>inflight := None\<rparr>)))"
  by (simp add: finish_unfold [OF assms] Let_def request_succeeded_frame handle_frame
        sleep_frame makeRequest_frame split: sum.splits)

lemma finish_dispatched:
  assumes "inflight q = Some item"
  shows "dispatched (processQueue_finish env q)
           = dispatched q @ [item\<lparr>startTime := Some (lastRequestTime (processQueue_finish env q))\<rparr>]"
  unfolding finish_lastRequestTime [OF assms]
  by (simp add: finish_unfold [OF assms] Let_def request_succeeded_frame handle_frame
        sleep_frame makeRequest_frame ensure_min_delay_frame apply_backoff_frame split: sum.splits)

lemma finish_success:
  assumes "inflight q = Some item" and "request_outcome item (fetched env) = Inr v"
  shows "queue (processQueue_finish env q) = queue q"
    and "settled (processQueue_finish env q) = settled q @ [(handle item, Inr v)]"
    and "inflight (processQueue_finish env q) = None"
    and "isProcessing (processQueue_finish env q) = isProcessing q"
    and "nextHandle (processQueue_finish env q) = nextHandle q"
  using assms(2)
  by (simp_all add: finish_unfold [OF assms(1)] Let_def request_succeeded_frame
        sleep_frame makeRequest_frame ensure_min_delay_frame apply_backoff_frame)

lemma finish_reject:
  assumes "inflight q = Some item" and "request_outcome item (fetched env) = Inl e"
    and "\<not> (retries item < maxRetries \<and> retryable e)"
  shows "queue (processQueue_finish env q) = queue q"
    and "settled (processQueue_finish env q) = settled q @ [(handle item, Inl e)]"
    and "inflight (processQueue_finish env q) = None"
  using assms(2,3)
  by (simp_all add: finish_unfold [OF assms(1)] Let_def handle_reject
        sleep_frame makeRequest_frame ensure_min_delay_frame apply_backoff_frame)

lemma finish_retry:
  assumes "inflight q = Some item" and "request_outcome item (fetched env) = Inl e"
    and "retries item < maxRetries" and "retryable e"
  shows "queue (processQueue_finish env q)
           = insert_item (item\<lparr>startTime := Some (lastRequestTime (processQueue_finish env q)),
                               retries := Suc (retries item), priority := priority item + 10\<rparr>) (queue q)"
    and "settled (processQueue_finish env q) = settled q"
    and "inflight (processQueue_finish env q) = None"
  unfolding finish_lastRequestTime [OF assms(1)]
  using assms(2,3,4)
  by (simp_all add: finish_unfold [OF assms(1)] Let_def handle_retry
        sleep_frame makeRequest_frame ensure_min_delay_frame apply_backoff_frame)

lemma next_fields:
  "queue (processQueue_next q) = tl (queue q)"
  "inflight (processQueue_next q) = (case queue q of [] \<Rightarrow> inflight q | x # xs \<Rightarrow> Some x)"
  "settled (processQueue_next q) = settled q"
  "dispatched (processQueue_next q) = dispatched q"
  "rateLimitBackoff (processQueue_next q) = rateLimitBackoff q"
  "nextHandle (processQueue_next q) = nextHandle q"
  "lastRequestTime (processQueue_next q) = lastRequestTime q"
  "clock (processQueue_next q) = clock q + 100"
  by (simp_all add: processQueue_next_def processQueue_start_def sleep_def split: list.splits)

lemma succeeds_any: "succeeds item env \<Longrightarrow> succeeds item' env"
  by (simp add: succeeds_def request_outcome_def makeRequest_def Let_def split: fetch_result.splits)

lemma succeedsD: "succeeds item env \<Longrightarrow> \<exists>v. request_outcome item' (fetched env) = Inr v"
  using succeeds_any [of item env item'] by (auto simp: succeeds_def split: sum.splits)

lemma pass_success:
  assumes "inflight q = Some x" and "succeeds x env"
    and f: "\<And>i t. f (i\<lparr>startTime := t\<rparr>) = f i"
  shows "queue (pass env q) = tl (queue q)"
    and "inflight (pass env q) = (case queue q of [] \<Rightarrow> None | y # ys \<Rightarrow> Some y)"
    and "map f (dispatched (pass env q)) = map f (dispatched q) @ [f x]"
proof -
  from succeedsD [OF assms(2)] obtain v where v: "request_outcome x (fetched env) = Inr v" by blast
  note fs = finish_success [OF assms(1) v]
  show "queue (pass env q) = tl (queue q)"
    by (simp add: pass_def next_fields fs)
  show "inflight (pass env q) = (case queue q of [] \<Rightarrow> None | y # ys \<Rightarrow> Some y)"
    by (simp add: pass_def next_fields fs split: list.splits)
  show "map f (dispatched (pass env q)) = map f (dispatched q) @ [f x]"
    by (simp add: pass_def next_fields finish_dispatched [OF assms(1)] f)
qed

lemma passes_drain:
  assumes f: "\<And>i t. f (i\<lparr>startTime := t\<rparr>) = f i"
  shows "inflight q = Some x \<Longrightarrow> length envs = Suc (length (queue q))
         \<Longrightarrow> \<forall>e\<in>set envs. succeeds x e
         \<Longrightarrow> map f (dispatched (passes envs q)) = map f (dispatched q) @ f x # map f (queue q)"
proof (induction envs arbitrary: q x)
  case Nil
  then show ?case by simp
next
  case (Cons e es)
  from Cons.prems have se: "succeeds x e" by simp
  note ps = pass_success [OF Cons.prems(1) se, of f, OF f]
  show ?case
  proof (cases "queue q")
    case Nil
    with Cons.prems have "es = []" by simp
    with Nil ps show ?thesis by simp
  next
    case (Cons y ys)
    have i: "inflight (pass e q) = Some y" using ps(2) Cons by simp
    have l: "length es = Suc (length (queue (pass e q)))"
      using Cons.prems(2) ps(1) Cons by simp
    have a: "\<forall>e\<in>set es. succeeds y e"
      using Cons.prems(3) succeeds_any by auto
    from Cons.IH [OF i l a] show ?thesis
      using ps Cons by simp
  qed
qed

lemma startTime_irrelevant:
  "priority (i\<lparr>startTime := t\<rparr>) = priority i"
  "handle (i\<lparr>startTime := t\<rparr>) = handle i"
  "url (i\<lparr>startTime := t\<rparr>) = url i"
  by simp_all

lemma finish_None: "inflight q = None \<Longrightarrow> processQueue_finish env q = q"
  by (simp add: processQueue_finish_def)

lemma apply_backoff_Num:
  "rateLimitBackoff q = Num b \<Longrightarrow> 0 \<le> b \<Longrightarrow>
   rateLimitBackoff (apply_backoff q) = Num (max 0 (b - 1000)) \<and> clock (apply_backoff q) = clock q + b"
  by (auto simp: apply_backoff_def sleep_def)

lemma ensure_min_delay_clock: "clock q \<le> clock (ensure_min_delay rnd q)"
  by (simp add: ensure_min_delay_def sleep_def Let_def)

lemma makeRequest_backoff:
  "rateLimitBackoff (snd (makeRequest item r q)) =
     (case r of
        FetchThrows e \<Rightarrow> rateLimitBackoff q
      | Response status statusText ra body \<Rightarrow>
          if status = 429 then
            js_max (rateLimitBackoff q)
              (case ra of NoHeader \<Rightarrow> Num 5000 | Seconds n \<Rightarrow> Num (n * 1000) | Unparsable \<Rightarrow> NaN)
          else rateLimitBackoff q)"
  by (simp add: makeRequest_def Let_def split: fetch_result.splits)

lemma finish_backoff:
  assumes "inflight q = Some item" and "rateLimitBackoff q = Num b" and "0 \<le> b"
  shows "rateLimitBackoff (processQueue_finish env q) =
     (case fetched env of
        FetchThrows e \<Rightarrow> Num (max 0 (b - 1000))
      | Response status statusText ra body \<Rightarrow>
          if status = 429 then
            js_max (Num (max 0 (b - 1000)))
              (case ra of NoHeader \<Rightarrow> Num 5000 | Seconds n \<Rightarrow> Num (n * 1000) | Unparsable \<Rightarrow> NaN)
          else Num (max 0 (b - 1000)))"
proof -
  have "rateLimitBackoff (apply_backoff (q\<lparr>inflight := None\<rparr>)) = Num (max 0 (b - 1000))"
    using apply_backoff_Num [of "q\<lparr>inflight := None\<rparr>" b] assms by simp
  then show ?thesis
    by (simp add: finish_unfold [OF assms(1)] Let_def request_succeeded_frame handle_frame
          sleep_frame makeRequest_backoff ensure_min_delay_frame
          split: sum.splits fetch_result.splits)
qed

lemma finish_waits:
  assumes "inflight q = Some item" and "rateLimitBackoff q = Num b" and "0 \<le> b"
  shows "clock q + b \<le> lastRequestTime (processQueue_finish env q)"
proof -
  have "clock (apply_backoff (q\<lparr>inflight := None\<rparr>)) = clock q + b"
    using apply_backoff_Num [of "q\<lparr>inflight := None\<rparr>" b] assms by simp
  then show ?thesis
    using ensure_min_delay_clock [of "apply_backoff (q\<lparr>inflight := None\<rparr>)" "rnd_delay env"]
    by (simp add: finish_lastRequestTime [OF assms(1)])
qed

lemma finish_clock:
  assumes "inflight q = Some item"
  shows "lastRequestTime (processQueue_finish env q) \<le> clock (processQueue_finish env q)"
proof -
  let ?q2 = "ensure_min_delay (rnd_delay env) (apply_backoff (q\<lparr>inflight := None\<rparr>))"
  let ?item1 = "item\<lparr>startTime := Some (clock ?q2)\<rparr>"
  let ?q5 = "sleep (latency env) (snd (makeRequest ?item1 (fetched env)
               (?q2\<lparr>lastRequestTime := clock ?q2, dispatched := dispatched ?q2 @ [?item1]\<rparr>)))"
  have a: "clock ?q2 \<le> clock ?q5" by (simp add: sleep_frame makeRequest_frame)
  have b: "clock ?q5 \<le> clock (processQueue_finish env q)"
  proof (cases "request_outcome item (fetched env)")
    case (Inl e)
    then have "processQueue_finish env q = handleRequestError ?item1 e (rnd_retry env) ?q5"
      by (simp add: finish_unfold [OF assms] Let_def)
    then show ?thesis by (simp only: handle_frame(7))
  next
    case (Inr v)
    then have "processQueue_finish env q
                 = request_succeeded ?item1 (clock ?q5 - clock ?q2) v ?q5"
      by (simp add: finish_unfold [OF assms] Let_def)
    then show ?thesis by (simp only: request_succeeded_frame(9))
  qed
  from a b show ?thesis by (simp only: finish_lastRequestTime [OF assms])
qed


lemma pass_frame:
  "settled (pass env q) = settled (processQueue_finish env q)"
  "dispatched (pass env q) = dispatched (processQueue_finish env q)"
  "rateLimitBackoff (pass env q) = rateLimitBackoff (processQueue_finish env q)"
  "lastRequestTime (pass env q) = lastRequestTime (processQueue_finish env q)"
  "clock (pass env q) = clock (processQueue_finish env q) + 100"
  by (simp_all add: pass_def next_fields)

lemma pass_retry:
  assumes "inflight q = Some item" and "queue q = []"
    and "request_outcome item (fetched env) = Inl e" and "retryable e"
    and "retries item < maxRetries"
  shows "\<exists>item'. inflight (pass env q) = Some item' \<and> handle item' = handle item
           \<and> retries item' = Suc (retries item) \<and> priority item' = priority item + 10"
    and "queue (pass env q) = []"
    and "settled (pass env q) = settled q"
    and "length (dispatched (pass env q)) = Suc (length (dispatched q))"
proof -
  note fr = finish_retry [OF assms(1,3,5,4)]
  have qf: "\<exists>item'. queue (processQueue_finish env q) = [item'] \<and> handle item' = handle item
              \<and> retries item' = Suc (retries item) \<and> priority item' = priority item + 10"
    unfolding fr(1) assms(2) by (simp add: insert_item_def)
  then obtain item' where i: "queue (processQueue_finish env q) = [item']"
    "handle item' = handle item" "retries item' = Suc (retries item)"
    "priority item' = priority item + 10" by blast
  show "\<exists>item'. inflight (pass env q) = Some item' \<and> handle item' = handle item
           \<and> retries item' = Suc (retries item) \<and> priority item' = priority item + 10"
    using i by (simp add: pass_def next_fields)
  show "queue (pass env q) = []" using i by (simp add: pass_def next_fields)
  show "settled (pass env q) = settled q" by (simp add: pass_frame fr)
  show "length (dispatched (pass env q)) = Suc (length (dispatched q))"
    by (simp add: pass_frame finish_dispatched [OF assms(1)])
qed

lemma pass_settle:
  assumes "inflight q = Some item" and "queue q = []"
  shows "request_outcome item (fetched env) = Inr v \<Longrightarrow>
           settled (pass env q) = settled q @ [(handle item, Inr v)]"
    and "request_outcome item (fetched env) = Inl e \<Longrightarrow>
         \<not> (retries item < maxRetries \<and> retryable e) \<Longrightarrow>
           settled (pass env q) = settled q @ [(handle item, Inl e)]
           \<and> queue (pass env q) = [] \<and> inflight (pass env q) = None
           \<and> length (dispatched (pass env q)) = Suc (length (dispatched q))"
proof -
  show "request_outcome item (fetched env) = Inr v \<Longrightarrow>
           settled (pass env q) = settled q @ [(handle item, Inr v)]"
    by (simp add: pass_frame finish_success [OF assms(1)])
  show "request_outcome item (fetched env) = Inl e \<Longrightarrow>
         \<not> (retries item < maxRetries \<and> retryable e) \<Longrightarrow>
           settled (pass env q) = settled q @ [(handle item, Inl e)]
           \<and> queue (pass env q) = [] \<and> inflight (pass env q) = None
           \<and> length (dispatched (pass env q)) = Suc (length (dispatched q))"
    using assms(2)
    by (simp add: pass_frame finish_reject [OF assms(1)] pass_def next_fields
          finish_dispatched [OF assms(1)])
qed

lemma outcome_any: "request_outcome item r = request_outcome item' r"
  by (simp add: request_outcome_def makeRequest_def Let_def split: fetch_result.splits)

lemma three_retries:
  assumes "inflight q = Some item" and "queue q = []" and "retries item = 0"
    and "request_outcome item (fetched e1) = Inl x1" and "retryable x1"
    and "request_outcome item (fetched e2) = Inl x2" and "retryable x2"
    and "request_outcome item (fetched e3) = Inl x3" and "retryable x3"
  shows "\<exists>item3. inflight (passes [e1, e2, e3] q) = Some item3 \<and> handle item3 = handle item
            \<and> retries item3 = 3 \<and> priority item3 = priority item + 30"
    and "queue (passes [e1, e2, e3] q) = []"
    and "settled (passes [e1, e2, e3] q) = settled q"
    and "length (dispatched (passes [e1, e2, e3] q)) = length (dispatched q) + 3"
proof -
  have r0: "retries item < maxRetries" using assms(3) by (simp add: maxRetries_def)
  note p1 = pass_retry [OF assms(1,2,4,5) r0]
  from p1(1) obtain i1 where i1: "inflight (pass e1 q) = Some i1" "handle i1 = handle item"
    "retries i1 = Suc (retries item)" "priority i1 = priority item + 10" by blast
  have r1: "retries i1 < maxRetries" using i1(3) assms(3) by (simp add: maxRetries_def)
  have o2: "request_outcome i1 (fetched e2) = Inl x2" using assms(6) outcome_any by metis
  note p2 = pass_retry [OF i1(1) p1(2) o2 assms(7) r1]
  from p2(1) obtain i2 where i2: "inflight (pass e2 (pass e1 q)) = Some i2" "handle i2 = handle i1"
    "retries i2 = Suc (retries i1)" "priority i2 = priority i1 + 10" by blast
  have r2: "retries i2 < maxRetries" using i2(3) i1(3) assms(3) by (simp add: maxRetries_def)
  have o3: "request_outcome i2 (fetched e3) = Inl x3" using assms(8) outcome_any by metis
  note p3 = pass_retry [OF i2(1) p2(2) o3 assms(9) r2]
  from p3(1) obtain i3 where i3: "inflight (pass e3 (pass e2 (pass e1 q))) = Some i3"
    "handle i3 = handle i2" "retries i3 = Suc (retries i2)" "priority i3 = priority i2 + 10" by blast
  show "\<exists>item3. inflight (passes [e1, e2, e3] q) = Some item3 \<and> handle item3 = handle item
            \<and> retries item3 = 3 \<and> priority item3 = priority item + 30"
    using i1 i2 i3 assms(3) by simp
  show "queue (passes [e1, e2, e3] q) = []" using p3(2) by simp
  show "settled (passes [e1, e2, e3] q) = settled q" using p1(3) p2(3) p3(3) by simp
  show "length (dispatched (passes [e1, e2, e3] q)) = length (dispatched q) + 3"
    using p1(4) p2(4) p3(4) by simp
qed


lemma retryable_transient: "retryable e = transient e"
  by (simp add: retryable_def transient_def isRateLimit_def isTimeout_def isNetworkError_def)

lemma waiting_next:
  "inflight q = None \<Longrightarrow> waiting (processQueue_next q) = queue q"
  by (simp add: waiting_def next_fields split: list.splits)

lemma next_isProcessing:
  "inflight q = None \<Longrightarrow> inflight (processQueue_next q) \<noteq> None \<Longrightarrow> isProcessing (processQueue_next q)"
  by (auto simp: processQueue_next_def processQueue_start_def sleep_def split: list.splits)

lemma timer_fields:
  "waiting (timer_fires q) = waiting q"
  "settled (timer_fires q) = settled q"
  "nextHandle (timer_fires q) = nextHandle q"
  "inflight q \<noteq> None \<longrightarrow> isProcessing q \<Longrightarrow>
     inflight (timer_fires q) \<noteq> None \<longrightarrow> isProcessing (timer_fires q)"
proof -
  show "waiting (timer_fires q) = waiting q"
    by (simp add: timer_fires_def waiting_next) (simp add: waiting_def)
  show "settled (timer_fires q) = settled q" "nextHandle (timer_fires q) = nextHandle q"
    by (simp_all add: timer_fires_def next_fields)
  show "inflight q \<noteq> None \<longrightarrow> isProcessing q \<Longrightarrow>
     inflight (timer_fires q) \<noteq> None \<longrightarrow> isProcessing (timer_fires q)"
    using next_isProcessing [of q] by (auto simp: timer_fires_def)
qed

lemma finish_cases:
  assumes "inflight q = Some item"
  shows "inflight (processQueue_finish env q) = None
         \<and> nextHandle (processQueue_finish env q) = nextHandle q
         \<and> (case request_outcome item (fetched env) of
               Inr v \<Rightarrow> queue (processQueue_finish env q) = queue q
                        \<and> settled (processQueue_finish env q) = settled q @ [(handle item, Inr v)]
             | Inl e \<Rightarrow>
                 if retries item < maxRetries \<and> transient e
                 then (\<exists>item'. queue (processQueue_finish env q) = insert_item item' (queue q)
                         \<and> handle item' = handle item \<and> retries item' = Suc (retries item)
                         \<and> priority item' = priority item + 10)
                      \<and> settled (processQueue_finish env q) = settled q
                 else queue (processQueue_finish env q) = queue q
                      \<and> settled (processQueue_finish env q) = settled q @ [(handle item, Inl e)])"
proof (cases "request_outcome item (fetched env)")
  case (Inr v)
  have "nextHandle (processQueue_finish env q) = nextHandle q"
    using finish_success(5) [OF assms Inr] .
  with finish_success [OF assms Inr] Inr show ?thesis by simp
next
  case (Inl e)
  have nh: "nextHandle (processQueue_finish env q) = nextHandle q"
    by (simp add: finish_unfold [OF assms] Let_def Inl handle_frame sleep_frame makeRequest_frame
          ensure_min_delay_frame apply_backoff_frame)
  show ?thesis
  proof (cases "retries item < maxRetries \<and> transient e")
    case True
    then have r: "retries item < maxRetries" "retryable e" by (simp_all add: retryable_transient)
    note fr = finish_retry [OF assms Inl r]
    show ?thesis using Inl True nh fr(2,3) by (auto intro!: exI simp: fr(1))
  next
    case False
    then have n: "\<not> (retries item < maxRetries \<and> retryable e)" by (simp add: retryable_transient)
    from finish_reject [OF assms Inl n] Inl False nh show ?thesis by simp
  qed
qed

lemma finish_idle: "inflight q = None \<Longrightarrow> processQueue_finish env q = q"
  by (simp add: processQueue_finish_def)

lemma handles_insert:
  "handle ` set (insert_item i qs) = insert (handle i) (handle ` set qs)"
  "distinct (map handle (insert_item i qs))
     = (handle i \<notin> handle ` set qs \<and> distinct (map handle qs))"
proof -
  let ?P = "\<lambda>x. priority i \<le> priority x"
  let ?a = "takeWhile ?P qs" and ?b = "dropWhile ?P qs"
  have eq: "insert_item i qs = ?a @ i # ?b" by (rule insert_item_eq)
  have qs: "qs = ?a @ ?b" by simp
  show "handle ` set (insert_item i qs) = insert (handle i) (handle ` set qs)"
    by (simp add: set_insert_item)
  have s: "handle ` set qs = handle ` set ?a \<union> handle ` set ?b"
    by (subst qs) (simp only: set_append image_Un)
  have d: "distinct (map handle qs)
           = (distinct (map handle ?a) \<and> distinct (map handle ?b)
              \<and> handle ` set ?a \<inter> handle ` set ?b = {})"
    by (subst qs) (simp only: map_append distinct_append set_map)
  show "distinct (map handle (insert_item i qs))
     = (handle i \<notin> handle ` set qs \<and> distinct (map handle qs))"
    unfolding eq d s by auto
qed

lemma waiting_enqueue:
  assumes "well_formed q"
  shows "\<exists>new. waiting (enqueue u options q)
               = (case inflight q of None \<Rightarrow> [] | Some item \<Rightarrow> [item]) @ insert_item new (queue q)
             \<and> handle new = nextHandle q \<and> retries new = 0"
    and "settled (enqueue u options q) = settled q"
    and "nextHandle (enqueue u options q) = Suc (nextHandle q)"
    and "inflight (enqueue u options q) \<noteq> None \<longrightarrow> isProcessing (enqueue u options q)"
proof -
  let ?new = "\<lparr>url = u, handle = nextHandle q, retries = 0,
                 priority = or_default (opt_priority options) 0, startTime = None,
                 timeout = or_default (opt_timeout options) defaultTimeout,
                 retryDelay = or_default (opt_retryDelay options) 1000,
                 headers = (case opt_headers options of None \<Rightarrow> [] | Some h \<Rightarrow> h)\<rparr>"
  have ne: "insert_item ?new (queue q) \<noteq> []"
    by (simp add: insert_item_eq)
  have w: "waiting (enqueue u options q)
           = (case inflight q of None \<Rightarrow> [] | Some item \<Rightarrow> [item]) @ insert_item ?new (queue q)"
  proof (cases "isProcessing q")
    case True
    then show ?thesis by (simp add: waiting_def enqueue_def Let_def)
  next
    case False
    with assms have "inflight q = None" by (auto simp: well_formed_def)
    with False ne show ?thesis
      by (simp add: waiting_def enqueue_def Let_def processQueue_start_def split: list.splits)
  qed
  then show "\<exists>new. waiting (enqueue u options q)
               = (case inflight q of None \<Rightarrow> [] | Some item \<Rightarrow> [item]) @ insert_item new (queue q)
             \<and> handle new = nextHandle q \<and> retries new = 0"
    by (intro exI [of _ ?new]) simp
  show "settled (enqueue u options q) = settled q"
    by (simp add: enqueue_def Let_def processQueue_start_def split: list.splits)
  show "nextHandle (enqueue u options q) = Suc (nextHandle q)"
    by (simp add: enqueue_def Let_def processQueue_start_def split: list.splits)
  show "inflight (enqueue u options q) \<noteq> None \<longrightarrow> isProcessing (enqueue u options q)"
    using assms
    by (auto simp: enqueue_def Let_def processQueue_start_def well_formed_def split: list.splits)
qed

lemma well_formed_enqueue:
  assumes "well_formed q"
  shows "well_formed (enqueue u options q)"
proof -
  from waiting_enqueue(1) [OF assms, of u options]
  obtain new where w: "waiting (enqueue u options q)
               = (case inflight q of None \<Rightarrow> [] | Some item \<Rightarrow> [item]) @ insert_item new (queue q)"
    and h: "handle new = nextHandle q" by blast
  have old: "distinct (map handle (waiting q))" "\<forall>i \<in> set (waiting q). handle i < nextHandle q"
    using assms by (simp_all add: well_formed_def)
  have fresh: "nextHandle q \<notin> handle ` set (waiting q)" using old(2) by auto
  have d: "distinct (map handle (waiting (enqueue u options q)))"
    using old(1) fresh unfolding w
    by (cases "inflight q") (auto simp: waiting_def handles_insert h)
  have b: "\<forall>i \<in> set (waiting (enqueue u options q)). handle i < Suc (nextHandle q)"
  proof
    fix i assume "i \<in> set (waiting (enqueue u options q))"
    then have "handle i \<in> handle ` set (waiting (enqueue u options q))" by simp
    then have "handle i = nextHandle q \<or> handle i \<in> handle ` set (waiting q)"
      unfolding w by (cases "inflight q") (auto simp: waiting_def handles_insert h)
    then show "handle i < Suc (nextHandle q)" using old(2) by auto
  qed
  show ?thesis
    unfolding well_formed_def
    using d b waiting_enqueue(3,4) [OF assms, of u options] by simp
qed



lemma finish_busy:
  assumes "inflight q = Some item"
  shows "nextHandle (processQueue_finish env q) = nextHandle q"
    and "inflight (processQueue_finish env q) = None"
    and "case request_outcome item (fetched env) of
           Inr v \<Rightarrow> waiting (processQueue_finish env q) = queue q
                    \<and> settled (processQueue_finish env q) = settled q @ [(handle item, Inr v)]
         | Inl e \<Rightarrow>
             if retries item < maxRetries \<and> transient e
             then (\<exists>item'. waiting (processQueue_finish env q) = insert_item item' (queue q)
                     \<and> handle item' = handle item \<and> retries item' = Suc (retries item)
                     \<and> priority item' = priority item + 10)
                  \<and> settled (processQueue_finish env q) = settled q
             else waiting (processQueue_finish env q) = queue q
                  \<and> settled (processQueue_finish env q) = settled q @ [(handle item, Inl e)]"
proof -
  note fc = finish_cases [OF assms, of env]
  from fc show n: "inflight (processQueue_finish env q) = None" by simp
  have w: "waiting (processQueue_finish env q) = queue (processQueue_finish env q)"
    by (simp add: waiting_def n)
  show "nextHandle (processQueue_finish env q) = nextHandle q"
    using fc by simp
  show "case request_outcome item (fetched env) of
           Inr v \<Rightarrow> waiting (processQueue_finish env q) = queue q
                    \<and> settled (processQueue_finish env q) = settled q @ [(handle item, Inr v)]
         | Inl e \<Rightarrow>
             if retries item < maxRetries \<and> transient e
             then (\<exists>item'. waiting (processQueue_finish env q) = insert_item item' (queue q)
                     \<and> handle item' = handle item \<and> retries item' = Suc (retries item)
                     \<and> priority item' = priority item + 10)
                  \<and> settled (processQueue_finish env q) = settled q
             else waiting (processQueue_finish env q) = queue q
                  \<and> settled (processQueue_finish env q) = settled q @ [(handle item, Inl e)]"
    using fc unfolding w by (simp split: sum.splits if_splits)
qed

lemma well_formed_timer:
  assumes "well_formed q"
  shows "well_formed (timer_fires q)"
proof -
  from assms have "inflight q \<noteq> None \<longrightarrow> isProcessing q" by (simp add: well_formed_def)
  from timer_fields(4) [OF this] assms show ?thesis
    by (simp add: well_formed_def timer_fields(1,3))
qed

lemma well_formed_finish:
  assumes "well_formed q"
  shows "well_formed (processQueue_finish env q)"
proof (cases "inflight q")
  case None
  with assms show ?thesis by (simp add: finish_idle)
next
  case (Some item)
  have w: "waiting q = item # queue q" using Some by (simp add: waiting_def)
  from assms w have d: "distinct (map handle (queue q))" "handle item \<notin> handle ` set (queue q)"
    and b: "\<forall>i \<in> set (queue q). handle i < nextHandle q" "handle item < nextHandle q"
    by (auto simp: well_formed_def)
  note pb = finish_busy [OF Some, of env]
  have "distinct (map handle (waiting (processQueue_finish env q)))
        \<and> (\<forall>i \<in> set (waiting (processQueue_finish env q)). handle i < nextHandle q)"
  proof (cases "request_outcome item (fetched env)")
    case (Inr v)
    with pb(3) d b show ?thesis by simp
  next
    case (Inl e)
    show ?thesis
    proof (cases "retries item < maxRetries \<and> transient e")
      case True
      with pb(3) Inl obtain item' where
        i: "waiting (processQueue_finish env q) = insert_item item' (queue q)"
        "handle item' = handle item" by auto
      show ?thesis unfolding i(1) using d b i(2) by (simp add: handles_insert set_insert_item)
    next
      case False
      with pb(3) Inl d b show ?thesis by simp
    qed
  qed
  with pb(1,2) show ?thesis by (simp add: well_formed_def)
qed

lemma well_formed_run: "well_formed q \<Longrightarrow> well_formed (run_queue evs q)"
  by (induction evs q rule: run_queue.induct)
     (simp_all add: well_formed_enqueue well_formed_finish well_formed_timer)










lemma finish_decay:
  assumes "inflight q = Some item" and "rateLimitBackoff q = Num b" and "0 \<le> b"
    and "\<not> throttled (fetched env)"
  shows "rateLimitBackoff (processQueue_finish env q) = Num (max 0 (b - 1000))"
  using assms(4)
  by (simp add: finish_backoff [OF assms(1,2,3)] throttled_def split: fetch_result.splits)

lemma pass_decay_step:
  assumes "rateLimitBackoff q = Num b" and "0 \<le> b" and "\<not> throttled (fetched e)"
  shows "rateLimitBackoff (pass e q)
           = Num (max 0 (b - 1000 * (int (length (dispatched (pass e q))) - int (length (dispatched q)))))"
proof (cases "inflight q")
  case None
  then show ?thesis using assms by (simp add: pass_frame finish_None)
next
  case (Some item)
  show ?thesis
    by (simp add: pass_frame finish_decay [OF Some assms] finish_dispatched [OF Some])
qed

lemma dispatched_pass_mono: "length (dispatched q) \<le> length (dispatched (pass e q))"
proof (cases "inflight q")
  case None
  then show ?thesis by (simp add: pass_frame finish_None)
next
  case (Some item)
  show ?thesis by (simp add: pass_frame finish_dispatched [OF Some])
qed

lemma dispatched_passes_mono: "length (dispatched q) \<le> length (dispatched (passes envs q))"
proof (induction envs arbitrary: q)
  case Nil
  show ?case by simp
next
  case (Cons e es)
  from dispatched_pass_mono [of q e] Cons [of "pass e q"] show ?case by simp
qed

lemma passes_decay:
  "rateLimitBackoff q = Num b \<Longrightarrow> 0 \<le> b \<Longrightarrow> \<forall>e\<in>set envs. \<not> throttled (fetched e) \<Longrightarrow>
   rateLimitBackoff (passes envs q)
     = Num (max 0 (b - 1000 * (int (length (dispatched (passes envs q))) - int (length (dispatched q)))))"
proof (induction envs arbitrary: q b)
  case Nil
  then show ?case by simp
next
  case (Cons e es)
  let ?k = "int (length (dispatched (pass e q))) - int (length (dispatched q))"
  let ?b = "max 0 (b - 1000 * ?k)"
  have s: "rateLimitBackoff (pass e q) = Num ?b"
    using Cons.prems by (intro pass_decay_step) simp_all
  have k: "0 \<le> ?k" using dispatched_pass_mono [of q e] by simp
  have m: "0 \<le> int (length (dispatched (passes es (pass e q)))) - int (length (dispatched (pass e q)))"
    using dispatched_passes_mono [of "pass e q" es] by simp
  from Cons.IH [OF s _ ] Cons.prems(3)
  have "rateLimitBackoff (passes es (pass e q))
          = Num (max 0 (?b - 1000 * (int (length (dispatched (passes es (pass e q))))
                                      - int (length (dispatched (pass e q))))))"
    by simp
  then show ?case using k m by (simp add: max_def) 
qed


lemma throttled_next_dispatch:
  assumes "inflight q = Some item" and "rateLimitBackoff q = Num b" and "0 \<le> b"
    and "fetched env = Response 429 stxt ra body"
    and "(case ra of NoHeader \<Rightarrow> Num 5000 | Seconds n \<Rightarrow> Num (n * 1000) | Unparsable \<Rightarrow> NaN) = Num d"
    and "inflight (pass env q) = Some item2"
  shows "rateLimitBackoff (pass env q) = Num (max (max 0 (b - 1000)) d)"
    and "lastRequestTime (processQueue_finish env q) + d
           \<le> lastRequestTime (processQueue_finish env2 (pass env q))"
proof -
  show b': "rateLimitBackoff (pass env q) = Num (max (max 0 (b - 1000)) d)"
    using assms(4,5) by (simp add: pass_frame finish_backoff [OF assms(1,2,3)])
  have nn: "0 \<le> max (max 0 (b - 1000)) d" by simp
  from finish_waits [OF assms(6) b' nn, of env2]
  have "clock (pass env q) + d \<le> lastRequestTime (processQueue_finish env2 (pass env q))"
    by simp
  moreover have "lastRequestTime (processQueue_finish env q) \<le> clock (pass env q)"
    using finish_clock [OF assms(1), of env] by (simp add: pass_frame)
  ultimately show "lastRequestTime (processQueue_finish env q) + d
           \<le> lastRequestTime (processQueue_finish env2 (pass env q))" by simp
qed

text \<open>
  With a \<^verbatim>\<open>retry-after\<close> header that is absent or a number of seconds, and a
  backoff that is a number: a response with status 429 sets the shared backoff to the
  maximum of its current value and the delay of the header (seconds times 1000), or
  5000 when the header is absent. Every pass waits for the backoff in force before it sends its
  request, so the request after a throttled one is sent at least that delay later. A
  pass that is not throttled lowers the backoff by 1000, not below 0; over any run of
  such passes the backoff is its old value less 1000 per request sent, floored at 0.
\<close>

theorem throttling_backoff:
  assumes "inflight q = Some item" and "rateLimitBackoff q = Num b" and "0 \<le> b"
  shows
    "rateLimitBackoff (snd (makeRequest item (Response 429 stxt NoHeader body) q)) = Num (max b 5000)
     \<and> rateLimitBackoff (snd (makeRequest item (Response 429 stxt (Seconds n) body) q))
           = Num (max b (n * 1000))
     \<and> clock q + b \<le> lastRequestTime (processQueue_finish env q)
     \<and> (fetched env = Response 429 stxt (Seconds n) body \<and> inflight (pass env q) = Some item2
          \<longrightarrow> rateLimitBackoff (pass env q) = Num (max (max 0 (b - 1000)) (n * 1000))
              \<and> lastRequestTime (processQueue_finish env q) + n * 1000
                    \<le> lastRequestTime (processQueue_finish env2 (pass env q)))
     \<and> (fetched env = Response 429 stxt NoHeader body \<and> inflight (pass env q) = Some item2
          \<longrightarrow> rateLimitBackoff (pass env q) = Num (max (max 0 (b - 1000)) 5000)
              \<and> lastRequestTime (processQueue_finish env q) + 5000
                    \<le> lastRequestTime (processQueue_finish env2 (pass env q)))
     \<and> (\<not> throttled (fetched env)
          \<longrightarrow> rateLimitBackoff (processQueue_finish env q) = Num (max 0 (b - 1000)))
     \<and> ((\<forall>e\<in>set envs. \<not> throttled (fetched e))
          \<longrightarrow> rateLimitBackoff (passes envs q)
                = Num (max 0 (b - 1000 * (int (length (dispatched (passes envs q)))
                                           - int (length (dispatched q))))))"
proof (intro conjI impI)
  show "rateLimitBackoff (snd (makeRequest item (Response 429 stxt NoHeader body) q)) = Num (max b 5000)"
    using assms(2) by (simp add: makeRequest_backoff)
  show "rateLimitBackoff (snd (makeRequest item (Response 429 stxt (Seconds n) body) q))
           = Num (max b (n * 1000))"
    using assms(2) by (simp add: makeRequest_backoff)
  show "clock q + b \<le> lastRequestTime (processQueue_finish env q)"
    by (rule finish_waits [OF assms])
next
  assume h: "fetched env = Response 429 stxt (Seconds n) body \<and> inflight (pass env q) = Some item2"
  then have f: "fetched env = Response 429 stxt (Seconds n) body"
    and i: "inflight (pass env q) = Some item2" by simp_all
  have d: "(case Seconds n of NoHeader \<Rightarrow> Num 5000 | Seconds n \<Rightarrow> Num (n * 1000) | Unparsable \<Rightarrow> NaN)
             = Num (n * 1000)" by simp
  from throttled_next_dispatch [OF assms f d i]
  show "rateLimitBackoff (pass env q) = Num (max (max 0 (b - 1000)) (n * 1000))"
    and "lastRequestTime (processQueue_finish env q) + n * 1000
           \<le> lastRequestTime (processQueue_finish env2 (pass env q))" by blast+
next
  assume h: "fetched env = Response 429 stxt NoHeader body \<and> inflight (pass env q) = Some item2"
  then have f: "fetched env = Response 429 stxt NoHeader body"
    and i: "inflight (pass env q) = Some item2" by simp_all
  have d: "(case NoHeader of NoHeader \<Rightarrow> Num 5000 | Seconds n \<Rightarrow> Num (n * 1000) | Unparsable \<Rightarrow> NaN)
             = Num 5000" by simp
  from throttled_next_dispatch [OF assms f d i]
  show "rateLimitBackoff (pass env q) = Num (max (max 0 (b - 1000)) 5000)"
    and "lastRequestTime (processQueue_finish env q) + 5000
           \<le> lastRequestTime (processQueue_finish env2 (pass env q))" by blast+
next
  assume "\<not> throttled (fetched env)"
  then show "rateLimitBackoff (processQueue_finish env q) = Num (max 0 (b - 1000))"
    by (rule finish_decay [OF assms])
next
  assume "\<forall>e\<in>set envs. \<not> throttled (fetched e)"
  then show "rateLimitBackoff (passes envs q)
                = Num (max 0 (b - 1000 * (int (length (dispatched (passes envs q)))
                                           - int (length (dispatched q)))))"
    by (rule passes_decay [OF assms(2,3)])
qed


lemma enqueue_idle_fields:
  "inflight (enqueue u options (new_RequestQueue now))
     = Some \<lparr>url = u, handle = 0, retries = 0, priority = or_default (opt_priority options) 0,
             startTime = None, timeout = or_default (opt_timeout options) defaultTimeout,
             retryDelay = or_default (opt_retryDelay options) 1000,
             headers = (case opt_headers options of None \<Rightarrow> [] | Some h \<Rightarrow> h)\<rparr>"
  "queue (enqueue u options (new_RequestQueue now)) = []"
  "dispatched (enqueue u options (new_RequestQueue now)) = []"
  "isProcessing (enqueue u options (new_RequestQueue now))"
  "nextHandle (enqueue u options (new_RequestQueue now)) = 1"
  "settled (enqueue u options (new_RequestQueue now)) = []"
  "rateLimitBackoff (enqueue u options (new_RequestQueue now)) = Num 0"
  "clock (enqueue u options (new_RequestQueue now)) = now"
  by (simp_all add: enqueue_def new_RequestQueue_def processQueue_start_def insert_item_def Let_def)

lemma enqueue_busy_fields:
  assumes "isProcessing q"
  shows "queue (enqueue u options q)
           = insert_item \<lparr>url = u, handle = nextHandle q, retries = 0,
                          priority = or_default (opt_priority options) 0, startTime = None,
                          timeout = or_default (opt_timeout options) defaultTimeout,
                          retryDelay = or_default (opt_retryDelay options) 1000,
                          headers = (case opt_headers options of None \<Rightarrow> [] | Some h \<Rightarrow> h)\<rparr>
               (queue q)"
    and "inflight (enqueue u options q) = inflight q"
    and "dispatched (enqueue u options q) = dispatched q"
    and "isProcessing (enqueue u options q)"
    and "nextHandle (enqueue u options q) = Suc (nextHandle q)"
  using assms by (simp_all add: enqueue_def Let_def)

lemma or_default_Some: "or_default (Some p) 0 = p"
  by (simp add: or_default_def)

lemma example_312:
  assumes "succeeds x e1" and "succeeds x e2" and "succeeds x e3"
  shows "map priority (dispatched (passes [e1, e2, e3]
           (enqueue u3 (o3\<lparr>opt_priority := Some 2\<rparr>)
             (enqueue u2 (o2\<lparr>opt_priority := Some 1\<rparr>)
               (enqueue u1 (o1\<lparr>opt_priority := Some 3\<rparr>) (new_RequestQueue now))))))
         = [3, 2, 1]"
proof -
  let ?q1 = "enqueue u1 (o1\<lparr>opt_priority := Some 3\<rparr>) (new_RequestQueue now)"
  let ?q2 = "enqueue u2 (o2\<lparr>opt_priority := Some 1\<rparr>) ?q1"
  let ?q3 = "enqueue u3 (o3\<lparr>opt_priority := Some 2\<rparr>) ?q2"
  note b2 = enqueue_busy_fields [OF enqueue_idle_fields(4), of u2 "o2\<lparr>opt_priority := Some 1\<rparr>" u1 "o1\<lparr>opt_priority := Some 3\<rparr>" now]
  note b3 = enqueue_busy_fields [OF b2(4), of u3 "o3\<lparr>opt_priority := Some 2\<rparr>"]
  obtain y where y: "inflight ?q3 = Some y" "priority y = 3"
    by (simp add: b3 b2 enqueue_idle_fields or_default_Some)
  have qq: "map priority (queue ?q3) = [2, 1]"
    by (simp add: b3 b2 enqueue_idle_fields or_default_Some insert_item_def)
  have d: "dispatched ?q3 = []"
    by (simp add: b3 b2 enqueue_idle_fields)
  have l: "length [e1, e2, e3] = Suc (length (queue ?q3))"
    using arg_cong [OF qq, of length] by simp
  have a: "\<forall>e\<in>set [e1, e2, e3]. succeeds y e"
    using assms succeeds_any by auto
  from passes_drain [of priority, OF startTime_irrelevant(1) y(1) l a]
  show ?thesis by (simp only: d qq y(2)) simp
qed

lemma example_tie_idle:
  assumes "succeeds x e1" and "succeeds x e2"
  shows "map url (dispatched (passes [e1, e2]
           (enqueue uB (oB\<lparr>opt_priority := Some p\<rparr>)
             (enqueue uA (oA\<lparr>opt_priority := Some p\<rparr>) (new_RequestQueue now)))))
         = [uA, uB]"
proof -
  let ?q1 = "enqueue uA (oA\<lparr>opt_priority := Some p\<rparr>) (new_RequestQueue now)"
  let ?q2 = "enqueue uB (oB\<lparr>opt_priority := Some p\<rparr>) ?q1"
  note b2 = enqueue_busy_fields [OF enqueue_idle_fields(4), of uB "oB\<lparr>opt_priority := Some p\<rparr>" uA "oA\<lparr>opt_priority := Some p\<rparr>" now]
  obtain y where y: "inflight ?q2 = Some y" "url y = uA"
    by (simp add: b2 enqueue_idle_fields)
  have qq: "map url (queue ?q2) = [uB]"
    by (simp add: b2 enqueue_idle_fields insert_item_def)
  have d: "dispatched ?q2 = []"
    by (simp add: b2 enqueue_idle_fields)
  have l: "length [e1, e2] = Suc (length (queue ?q2))"
    using arg_cong [OF qq, of length] by simp
  have a: "\<forall>e\<in>set [e1, e2]. succeeds y e"
    using assms succeeds_any by auto
  from passes_drain [of url, OF startTime_irrelevant(3) y(1) l a]
  show ?thesis by (simp only: d qq y(2)) simp
qed

lemma example_tie_busy:
  assumes "inflight q = Some x" and "isProcessing q" and "queue q = []"
    and "succeeds x e0" and "succeeds x e1" and "succeeds x e2"
  shows "map url (dispatched (passes [e0, e1, e2]
           (enqueue uB (oB\<lparr>opt_priority := Some p\<rparr>)
             (enqueue uA (oA\<lparr>opt_priority := Some p\<rparr>) q))))
         = map url (dispatched q) @ [url x, uA, uB]"
proof -
  let ?q1 = "enqueue uA (oA\<lparr>opt_priority := Some p\<rparr>) q"
  let ?q2 = "enqueue uB (oB\<lparr>opt_priority := Some p\<rparr>) ?q1"
  note b1 = enqueue_busy_fields [OF assms(2), of uA "oA\<lparr>opt_priority := Some p\<rparr>"]
  note b2 = enqueue_busy_fields [OF b1(4), of uB "oB\<lparr>opt_priority := Some p\<rparr>"]
  have y: "inflight ?q2 = Some x"
    by (simp add: b2 b1 assms(1))
  have qq: "map url (queue ?q2) = [uA, uB]"
    by (simp add: b2 b1 assms(3) insert_item_def or_default_Some)
  have d: "dispatched ?q2 = dispatched q"
    by (simp add: b2 b1)
  have l: "length [e0, e1, e2] = Suc (length (queue ?q2))"
    using arg_cong [OF qq, of length] by simp
  have a: "\<forall>e\<in>set [e0, e1, e2]. succeeds x e"
    using assms by auto
  from passes_drain [of url, OF startTime_irrelevant(3) y l a]
  show ?thesis by (simp only: d qq)
qed

text \<open>
  C5. \<^verbatim>\<open>enqueue\<close> keeps the queue in dispatch order (higher priority first, equal
  priorities in order of arrival), and successful passes send the waiting requests in
  queue order. Requests enqueued with priorities 3, 1, 2 are sent in the order 3, 2, 1;
  of two requests A then B with equal priority, A is sent before B, on an idle queue
  and behind a request already in flight.
\<close>

theorem priority_fifo_dispatch:
  "(queue_ordered q \<longrightarrow> queue_ordered (enqueue u options q))
   \<and> (inflight q = Some x \<and> length envs = Suc (length (queue q)) \<and> (\<forall>e\<in>set envs. succeeds x e)
        \<longrightarrow> map handle (dispatched (passes envs q))
              = map handle (dispatched q) @ handle x # map handle (queue q))
   \<and> (succeeds x e1 \<and> succeeds x e2 \<and> succeeds x e3
        \<longrightarrow> map priority (dispatched (passes [e1, e2, e3]
               (enqueue u3 (o3\<lparr>opt_priority := Some 2\<rparr>)
                 (enqueue u2 (o2\<lparr>opt_priority := Some 1\<rparr>)
                   (enqueue u1 (o1\<lparr>opt_priority := Some 3\<rparr>) (new_RequestQueue now))))))
              = [3, 2, 1])
   \<and> (succeeds x e1 \<and> succeeds x e2
        \<longrightarrow> map url (dispatched (passes [e1, e2]
               (enqueue uB (oB\<lparr>opt_priority := Some p\<rparr>)
                 (enqueue uA (oA\<lparr>opt_priority := Some p\<rparr>) (new_RequestQueue now)))))
              = [uA, uB])
   \<and> (inflight q = Some x \<and> isProcessing q \<and> queue q = []
          \<and> succeeds x e1 \<and> succeeds x e2 \<and> succeeds x e3
        \<longrightarrow> map url (dispatched (passes [e1, e2, e3]
               (enqueue uB (oB\<lparr>opt_priority := Some p\<rparr>)
                 (enqueue uA (oA\<lparr>opt_priority := Some p\<rparr>) q))))
              = map url (dispatched q) @ [url x, uA, uB])"
proof (intro conjI impI)
  assume "queue_ordered q"
  then show "queue_ordered (enqueue u options q)" by (rule queue_ordered_enqueue)
next
  assume "inflight q = Some x \<and> length envs = Suc (length (queue q)) \<and> (\<forall>e\<in>set envs. succeeds x e)"
  then show "map handle (dispatched (passes envs q))
              = map handle (dispatched q) @ handle x # map handle (queue q)"
    using passes_drain [of handle q x envs] by simp
next
  assume "succeeds x e1 \<and> succeeds x e2 \<and> succeeds x e3"
  then show "map priority (dispatched (passes [e1, e2, e3]
               (enqueue u3 (o3\<lparr>opt_priority := Some 2\<rparr>)
                 (enqueue u2 (o2\<lparr>opt_priority := Some 1\<rparr>)
                   (enqueue u1 (o1\<lparr>opt_priority := Some 3\<rparr>) (new_RequestQueue now))))))
              = [3, 2, 1]"
    using example_312 by blast
next
  assume "succeeds x e1 \<and> succeeds x e2"
  then show "map url (dispatched (passes [e1, e2]
               (enqueue uB (oB\<lparr>opt_priority := Some p\<rparr>)
                 (enqueue uA (oA\<lparr>opt_priority := Some p\<rparr>) (new_RequestQueue now)))))
              = [uA, uB]"
    using example_tie_idle by blast
next
  assume "inflight q = Some x \<and> isProcessing q \<and> queue q = []
          \<and> succeeds x e1 \<and> succeeds x e2 \<and> succeeds x e3"
  then show "map url (dispatched (passes [e1, e2, e3]
               (enqueue uB (oB\<lparr>opt_priority := Some p\<rparr>)
                 (enqueue uA (oA\<lparr>opt_priority := Some p\<rparr>) q))))
              = map url (dispatched q) @ [url x, uA, uB]"
    using example_tie_busy by blast
qed

lemma q_busy_fields:
  "inflight q_busy = Some item_a" "queue q_busy = []" "settled q_busy = []"
  "rateLimitBackoff q_busy = Num 0" "dispatched q_busy = []" "clock q_busy = 1000"
  by (simp_all add: q_busy_def enqueue_idle_fields item_a_def opts0_def or_default_def defaultTimeout_def)

lemma outcomes:
  "request_outcome item_a (fetched env_offline) = Inl failed_to_fetch"
  "request_outcome item_a (fetched env_ok) = Inr JNull"
  "request_outcome item_a (fetched env_500) = Inl http_500"
  by (simp_all add: request_outcome_def makeRequest_def env_offline_def env_ok_def env_500_def
      response_ok_def http_500_def show_int_def digit_char_def digits_of.simps)

lemma kinds: "retryable failed_to_fetch" "\<not> retryable http_500"
  by (simp_all add: retryable_def isRateLimit_def isTimeout_def isNetworkError_def
        failed_to_fetch_def http_500_def)

lemmas queue_eval =
  pass_def processQueue_next_def processQueue_start_def processQueue_finish_def
  apply_backoff_def ensure_min_delay_def makeRequest_def handleRequestError_def
  request_succeeded_def updateAverageResponseTime_def request_outcome_def
  sleep_def insert_item_def isRateLimit_def isTimeout_def isNetworkError_def
  maxRetries_def minDelay_def response_ok_def Let_def
  q_busy_def enqueue_def new_RequestQueue_def item_a_def opts0_def or_default_def
  defaultTimeout_def show_int_def digits_of.simps digit_char_def
  env_ok_def env_offline_def env_500_def env_429_def failed_to_fetch_def http_500_def






lemma pass_429_fields:
  "\<exists>i. inflight (pass env_429 q_busy) = Some i"
proof -
  have o: "request_outcome item_a (fetched env_429)
             = Inl \<lparr>err_name = ''Error'', err_message = ''Rate limited. Retry after 7000ms''\<rparr>"
    by (simp add: request_outcome_def makeRequest_def env_429_def show_int_def digit_char_def
          digits_of.simps)
  have k: "retryable \<lparr>err_name = ''Error'', err_message = ''Rate limited. Retry after 7000ms''\<rparr>"
    by (simp add: retryable_def isRateLimit_def)
  have r: "retries item_a < maxRetries" by (simp add: item_a_def maxRetries_def)
  from pass_retry(1) [OF q_busy_fields(1,2) o k r] show ?thesis by blast
qed

theorem throttling_backoff_witness:
  "inflight q_busy = Some item_a \<and> rateLimitBackoff q_busy = Num 0
   \<and> fetched env_429 = Response 429 ''Too Many Requests'' (Seconds 7) (Inr JNull)
   \<and> rateLimitBackoff (pass env_429 q_busy) = Num 7000
   \<and> lastRequestTime (processQueue_finish env_429 q_busy) + 7000
         \<le> lastRequestTime (processQueue_finish env_ok (pass env_429 q_busy))
   \<and> rateLimitBackoff (processQueue_finish env_ok q_busy) = Num 0
   \<and> rateLimitBackoff (passes [env_ok, env_offline] q_busy) = Num 0"
proof -
  obtain i where i: "inflight (pass env_429 q_busy) = Some i" using pass_429_fields by blast
  have f: "fetched env_429 = Response 429 ''Too Many Requests'' (Seconds 7) (Inr JNull)"
    by (simp add: env_429_def)
  have nt: "\<not> throttled (fetched env_ok)" "\<not> throttled (fetched env_offline)"
    by (simp_all add: throttled_def env_ok_def env_offline_def)
  note t = throttling_backoff [OF q_busy_fields(1,4), where stxt = "''Too Many Requests''"
      and body = "Inr JNull" and n = 7 and ?item2.0 = i and ?env2.0 = env_ok
      and envs = "[env_ok, env_offline]"]
  from t [where env = env_429] f i
  have a: "rateLimitBackoff (pass env_429 q_busy) = Num 7000"
    and b: "lastRequestTime (processQueue_finish env_429 q_busy) + 7000
         \<le> lastRequestTime (processQueue_finish env_ok (pass env_429 q_busy))"
    by simp_all
  from t [where env = env_ok] nt dispatched_passes_mono [of q_busy "[env_ok, env_offline]"]
  have c: "rateLimitBackoff (processQueue_finish env_ok q_busy) = Num 0"
    and d: "rateLimitBackoff (passes [env_ok, env_offline] q_busy) = Num 0"
    by simp_all
  from a b c d f q_busy_fields show ?thesis by simp
qed

lemma numeric_retry_after_decays:
  "rateLimitBackoff (pass env_429 q_busy) = Num 7000
   \<and> rateLimitBackoff (passes [env_429, env_ok] q_busy) = Num 6000
   \<and> map startTime (dispatched (passes [env_429, env_ok] q_busy)) = [Some 1000, Some 9640]"
  by (simp add: queue_eval)

text \<open>
  C4. A response with status 429 whose \<^verbatim>\<open>retry-after\<close> header is not a number of
  seconds (the header may be an HTTP date): \<^verbatim>\<open>Number.parseInt\<close> gives \<^verbatim>\<open>NaN\<close>,
  \<^verbatim>\<open>Math.max\<close> of the current backoff and \<^verbatim>\<open>NaN\<close> is \<^verbatim>\<open>NaN\<close>, and the test
  \<^verbatim>\<open>rateLimitBackoff > 0\<close> is false from then on. The shared backoff is not the larger
  of its value and a delay; it is still \<^verbatim>\<open>NaN\<close> after a later response with status 429
  that asks for 7 seconds, and the request after that one is sent 2640 ms later, not
  7000.
\<close>

theorem unparsable_retry_after:
  "throttled (fetched env_429_date)
   \<and> rateLimitBackoff q_busy = Num 0
   \<and> rateLimitBackoff (pass env_429_date q_busy) = NaN
   \<and> fetched env_429 = Response 429 ''Too Many Requests'' (Seconds 7) (Inr JNull)
   \<and> rateLimitBackoff (passes [env_429_date, env_429] q_busy) = NaN
   \<and> map startTime (dispatched (passes [env_429_date, env_429, env_ok] q_busy))
       = [Some 1000, Some 2640, Some 5280]"
proof -
  have a: "throttled (fetched env_429_date)"
    by (simp add: throttled_def env_429_date_def)
  have b: "rateLimitBackoff (pass env_429_date q_busy) = NaN"
    by (simp add: queue_eval env_429_date_def)
  have c: "rateLimitBackoff (passes [env_429_date, env_429] q_busy) = NaN"
    by (simp add: queue_eval env_429_date_def)
  have d: "map startTime (dispatched (passes [env_429_date, env_429, env_ok] q_busy))
           = [Some 1000, Some 2640, Some 5280]"
    by (simp add: queue_eval env_429_date_def)
  have e: "fetched env_429 = Response 429 ''Too Many Requests'' (Seconds 7) (Inr JNull)"
    by (simp add: env_429_def)
  from a b c d e q_busy_fields(4) show ?thesis by simp
qed

theorem priority_fifo_dispatch_witness:
  "queue_ordered (new_RequestQueue 1000)
   \<and> queue_ordered (enqueue ''/voyager/api/a'' opts0 (new_RequestQueue 1000))
   \<and> succeeds item_a env_ok
   \<and> map priority (dispatched (passes [env_ok, env_ok, env_ok]
         (enqueue ''/c'' (opts0\<lparr>opt_priority := Some 2\<rparr>)
           (enqueue ''/b'' (opts0\<lparr>opt_priority := Some 1\<rparr>)
             (enqueue ''/a'' (opts0\<lparr>opt_priority := Some 3\<rparr>) (new_RequestQueue 1000))))))
        = [3, 2, 1]
   \<and> map url (dispatched (passes [env_ok, env_ok]
         (enqueue ''/B'' (opts0\<lparr>opt_priority := Some 1\<rparr>)
           (enqueue ''/A'' (opts0\<lparr>opt_priority := Some 1\<rparr>) (new_RequestQueue 1000)))))
        = [''/A'', ''/B'']
   \<and> inflight q_busy = Some item_a \<and> isProcessing q_busy \<and> queue q_busy = []
   \<and> map url (dispatched (passes [env_ok, env_ok, env_ok]
         (enqueue ''/B'' (opts0\<lparr>opt_priority := Some 1\<rparr>)
           (enqueue ''/A'' (opts0\<lparr>opt_priority := Some 1\<rparr>) q_busy))))
        = [''/voyager/api/a'', ''/A'', ''/B'']"
proof -
  have o: "queue_ordered (new_RequestQueue 1000)"
    by (simp add: queue_ordered_def new_RequestQueue_def)
  have s: "succeeds item_a env_ok" by (simp add: succeeds_def outcomes)
  have p: "isProcessing q_busy" by (simp add: q_busy_def enqueue_idle_fields)
  have u: "url item_a = ''/voyager/api/a''" by (simp add: item_a_def)
  note t0 = priority_fifo_dispatch [where u = "''/voyager/api/a''" and options = opts0
      and x = item_a and envs = "[]" and ?e1.0 = env_ok and ?e2.0 = env_ok and ?e3.0 = env_ok
      and ?u3.0 = "''/c''" and ?o3.0 = opts0 and ?u2.0 = "''/b''" and ?o2.0 = opts0
      and ?u1.0 = "''/a''" and ?o1.0 = opts0 and now = 1000
      and uB = "''/B''" and oB = opts0 and p = 1 and uA = "''/A''" and oA = opts0]
  note t = t0 [where q = "new_RequestQueue 1000"]
  note t2 = t0 [where q = q_busy]
  from t o s have a: "queue_ordered (enqueue ''/voyager/api/a'' opts0 (new_RequestQueue 1000))"
    and b: "map priority (dispatched (passes [env_ok, env_ok, env_ok]
         (enqueue ''/c'' (opts0\<lparr>opt_priority := Some 2\<rparr>)
           (enqueue ''/b'' (opts0\<lparr>opt_priority := Some 1\<rparr>)
             (enqueue ''/a'' (opts0\<lparr>opt_priority := Some 3\<rparr>) (new_RequestQueue 1000))))))
        = [3, 2, 1]"
    and c: "map url (dispatched (passes [env_ok, env_ok]
         (enqueue ''/B'' (opts0\<lparr>opt_priority := Some 1\<rparr>)
           (enqueue ''/A'' (opts0\<lparr>opt_priority := Some 1\<rparr>) (new_RequestQueue 1000)))))
        = [''/A'', ''/B'']"
    by blast+
  from t2 s p q_busy_fields u have d: "map url (dispatched (passes [env_ok, env_ok, env_ok]
         (enqueue ''/B'' (opts0\<lparr>opt_priority := Some 1\<rparr>)
           (enqueue ''/A'' (opts0\<lparr>opt_priority := Some 1\<rparr>) q_busy))))
        = [''/voyager/api/a'', ''/A'', ''/B'']"
    by simp
  from o s p a b c d q_busy_fields show ?thesis by simp
qed

section \<open>Properties of the connections service\<close>

lemma show_three: "show_int (int maxConsecutiveFailures) = ''3''"
  by (simp add: maxConsecutiveFailures_def show_int_def digits_of.simps digit_char_def)

lemma show_int_3: "show_int 3 = ''3''"
  by (simp add: show_int_def digits_of.simps digit_char_def)

lemma turn_failed_below:
  assumes "fetchConnections (replied a) = Inl e"
      and "consecutiveFailures v + 1 < maxConsecutiveFailures"
  shows "\<exists>w'. batch_turn a (v, w) = Next (v\<lparr>consecutiveFailures := consecutiveFailures v + 1\<rparr>, w')
              \<and> w_events w' = w_events w @ [Requested (start v),
                                              Slept (2000 * int (consecutiveFailures v + 1))]
              \<and> w_clock w' = w_clock w + max 0 (elapsed a) + 2000 * int (consecutiveFailures v + 1)
              \<and> w_store w' = w_store w"
  using assms by (simp add: batch_turn_def Let_def pause_def)

lemma turn_failed_at:
  assumes "fetchConnections (replied a) = Inl e"
      and "maxConsecutiveFailures \<le> consecutiveFailures v + 1"
  shows "\<exists>w'. batch_turn a (v, w)
                = Throw failed_after_three (v\<lparr>consecutiveFailures := consecutiveFailures v + 1\<rparr>, w')
              \<and> w_events w' = w_events w @ [Requested (start v)]
              \<and> w_store w' = w_store w"
  using assms by (simp add: batch_turn_def Let_def failed_after_three_def show_three)

lemma turn_succeeded:
  assumes "fetchConnections (replied a) = Inr connections" "connections \<noteq> []"
  shows "\<exists>v' w'. (batch_turn a (v, w) = Next (v', w') \<or> batch_turn a (v, w) = Leave (v', w'))
                \<and> consecutiveFailures v' = 0
                \<and> allConnections v' = allConnections v @ connections
                \<and> start v' = start v + batchSize"
  using assms by (simp add: batch_turn_def Let_def)

lemma turn_next_below:
  assumes "batch_turn a vw = Next vw'"
  shows "consecutiveFailures (fst vw') < maxConsecutiveFailures \<and> hasMore (fst vw') = hasMore (fst vw)"
  using assms
  by (auto simp: batch_turn_def Let_def maxConsecutiveFailures_def split: sum.splits if_splits)

lemma turn_leave_below:
  assumes "batch_turn a vw = Leave vw'" "consecutiveFailures (fst vw) < maxConsecutiveFailures"
  shows "consecutiveFailures (fst vw') < maxConsecutiveFailures"
  using assms
  by (auto simp: batch_turn_def Let_def maxConsecutiveFailures_def split: sum.splits if_splits)

lemma turn_throw_at:
  assumes "batch_turn a vw = Throw e vw'" "consecutiveFailures (fst vw) < maxConsecutiveFailures"
  shows "consecutiveFailures (fst vw') = maxConsecutiveFailures \<and> e = failed_after_three"
  using assms
  by (auto simp: batch_turn_def Let_def maxConsecutiveFailures_def failed_after_three_def
                 show_int_3
           split: sum.splits if_splits)

lemma loop_abort_iff:
  assumes "consecutiveFailures (fst vw) < maxConsecutiveFailures"
  shows "(fst (fetch_batches env vw) \<noteq> None)
           = (consecutiveFailures (fst (snd (fetch_batches env vw))) = maxConsecutiveFailures)
         \<and> (fst (fetch_batches env vw) = None \<or> fst (fetch_batches env vw) = Some failed_after_three)"
  using assms
proof (induction env vw rule: fetch_batches.induct)
  case (1 env vw)
  show ?case
  proof (cases "hasMore (fst vw) \<and> consecutiveFailures (fst vw) < maxConsecutiveFailures")
    case False
    with "1.prems" show ?thesis by (subst (1 2 3 4) fetch_batches.simps) simp
  next
    case True
    show ?thesis
    proof (cases "batch_turn (env (requests (snd vw))) vw")
      case (Next vw')
      from turn_next_below [OF Next] have "consecutiveFailures (fst vw') < maxConsecutiveFailures" by simp
      from "1.IH" [OF True Next this] have ih: "(fst (fetch_batches env vw') \<noteq> None)
           = (consecutiveFailures (fst (snd (fetch_batches env vw'))) = maxConsecutiveFailures)
         \<and> (fst (fetch_batches env vw') = None \<or> fst (fetch_batches env vw') = Some failed_after_three)" .
      have "fetch_batches env vw = fetch_batches env vw'"
        by (subst fetch_batches.simps) (simp add: True Next)
      with ih show ?thesis by simp
    next
      case (Leave vw')
      have "fetch_batches env vw = (None, vw')"
        by (subst fetch_batches.simps) (simp add: True Leave)
      with turn_leave_below [OF Leave "1.prems"] show ?thesis by simp
    next
      case (Throw e vw')
      have "fetch_batches env vw = (Some e, vw')"
        by (subst fetch_batches.simps) (simp add: True Throw)
      with turn_throw_at [OF Throw "1.prems"] show ?thesis by simp
    qed
  qed
qed

lemma loop_goes_on:
  assumes "hasMore (fst vw)" "consecutiveFailures (fst vw) < maxConsecutiveFailures"
      and "batch_turn (env (requests (snd vw))) vw = Next vw'"
  shows "fetch_batches env vw = fetch_batches env vw'"
  by (subst fetch_batches.simps) (simp add: assms)

lemma loop_throws:
  assumes "hasMore (fst vw)" "consecutiveFailures (fst vw) < maxConsecutiveFailures"
      and "batch_turn (env (requests (snd vw))) vw = Throw e vw'"
  shows "fetch_batches env vw = (Some e, vw')"
  by (subst fetch_batches.simps) (simp add: assms)

text \<open>
  C6. The loop ends with an error exactly when the counter of consecutive failures
  has reached 3, and the error is the summary. A batch that yields connections sets the
  counter to 0. A batch that fails with the counter still below 3 is followed by a
  sleep of 2000 ms times the new count and then by the next turn of the loop, for the
  same \<^verbatim>\<open>start\<close>; the failure that brings the counter to 3 throws without a sleep.
\<close>

theorem batch_loop_policy:
  assumes "hasMore v" "consecutiveFailures v < maxConsecutiveFailures"
  shows
    "((fst (fetch_batches env (v, w)) \<noteq> None)
        = (consecutiveFailures (fst (snd (fetch_batches env (v, w)))) = maxConsecutiveFailures))
     \<and> (fst (fetch_batches env (v, w)) = None
          \<or> fst (fetch_batches env (v, w)) = Some failed_after_three)
     \<and> (\<forall>connections.
           fetchConnections (replied (env (requests w))) = Inr connections \<and> connections \<noteq> [] \<longrightarrow>
           (\<exists>v' w'. (batch_turn (env (requests w)) (v, w) = Next (v', w')
                      \<or> batch_turn (env (requests w)) (v, w) = Leave (v', w'))
                    \<and> consecutiveFailures v' = 0))
     \<and> (\<forall>e. fetchConnections (replied (env (requests w))) = Inl e
              \<and> consecutiveFailures v + 1 < maxConsecutiveFailures \<longrightarrow>
           (\<exists>w'. fetch_batches env (v, w)
                    = fetch_batches env (v\<lparr>consecutiveFailures := consecutiveFailures v + 1\<rparr>, w')
                  \<and> w_events w' = w_events w @ [Requested (start v),
                                                  Slept (2000 * int (consecutiveFailures v + 1))]
                  \<and> w_clock w' = w_clock w + max 0 (elapsed (env (requests w)))
                                  + 2000 * int (consecutiveFailures v + 1)))
     \<and> (\<forall>e. fetchConnections (replied (env (requests w))) = Inl e
              \<and> maxConsecutiveFailures \<le> consecutiveFailures v + 1 \<longrightarrow>
           (\<exists>w'. fetch_batches env (v, w)
                    = (Some failed_after_three,
                       v\<lparr>consecutiveFailures := consecutiveFailures v + 1\<rparr>, w')
                  \<and> w_events w' = w_events w @ [Requested (start v)]))"
proof (intro conjI allI impI)
  from assms(2) have below: "consecutiveFailures (fst (v, w)) < maxConsecutiveFailures" by simp
  from loop_abort_iff [OF below]
  show "(fst (fetch_batches env (v, w)) \<noteq> None)
        = (consecutiveFailures (fst (snd (fetch_batches env (v, w)))) = maxConsecutiveFailures)"
    and "fst (fetch_batches env (v, w)) = None
         \<or> fst (fetch_batches env (v, w)) = Some failed_after_three"
    by blast+
next
  fix connections
  assume "fetchConnections (replied (env (requests w))) = Inr connections \<and> connections \<noteq> []"
  then show "\<exists>v' w'. (batch_turn (env (requests w)) (v, w) = Next (v', w')
                      \<or> batch_turn (env (requests w)) (v, w) = Leave (v', w'))
                    \<and> consecutiveFailures v' = 0"
    using turn_succeeded [of "env (requests w)" connections v w] by blast
next
  fix e
  assume a: "fetchConnections (replied (env (requests w))) = Inl e
             \<and> consecutiveFailures v + 1 < maxConsecutiveFailures"
  from turn_failed_below [of "env (requests w)" e v w] a
  obtain w' where t: "batch_turn (env (requests w)) (v, w)
                      = Next (v\<lparr>consecutiveFailures := consecutiveFailures v + 1\<rparr>, w')"
    and ev: "w_events w' = w_events w @ [Requested (start v),
                                         Slept (2000 * int (consecutiveFailures v + 1))]"
    and cl: "w_clock w' = w_clock w + max 0 (elapsed (env (requests w)))
                          + 2000 * int (consecutiveFailures v + 1)"
    by blast
  from loop_goes_on [of "(v, w)" env] assms t
  have "fetch_batches env (v, w)
        = fetch_batches env (v\<lparr>consecutiveFailures := consecutiveFailures v + 1\<rparr>, w')"
    by simp
  with ev cl
  show "\<exists>w'. fetch_batches env (v, w)
                = fetch_batches env (v\<lparr>consecutiveFailures := consecutiveFailures v + 1\<rparr>, w')
              \<and> w_events w' = w_events w @ [Requested (start v),
                                              Slept (2000 * int (consecutiveFailures v + 1))]
              \<and> w_clock w' = w_clock w + max 0 (elapsed (env (requests w)))
                              + 2000 * int (consecutiveFailures v + 1)"
    by blast
next
  fix e
  assume a: "fetchConnections (replied (env (requests w))) = Inl e
             \<and> maxConsecutiveFailures \<le> consecutiveFailures v + 1"
  from turn_failed_at [of "env (requests w)" e v w] a
  obtain w' where t: "batch_turn (env (requests w)) (v, w)
                      = Throw failed_after_three
                          (v\<lparr>consecutiveFailures := consecutiveFailures v + 1\<rparr>, w')"
    and ev: "w_events w' = w_events w @ [Requested (start v)]"
    by blast
  from loop_throws [of "(v, w)" env] assms t
  have "fetch_batches env (v, w)
        = (Some failed_after_three, v\<lparr>consecutiveFailures := consecutiveFailures v + 1\<rparr>, w')"
    by simp
  with ev
  show "\<exists>w'. fetch_batches env (v, w)
                = (Some failed_after_three,
                   v\<lparr>consecutiveFailures := consecutiveFailures v + 1\<rparr>, w')
              \<and> w_events w' = w_events w @ [Requested (start v)]"
    by blast
qed

lemma env_down_fails: "fetchConnections (replied (env_down k)) = Inl failed_to_fetch"
  by (simp add: env_down_def fetchConnections_def)

theorem batch_loop_policy_witness:
  "hasMore vars0 \<and> consecutiveFailures vars0 < maxConsecutiveFailures
   \<and> fetchConnections (replied (env_down 0)) = Inl failed_to_fetch
   \<and> fetchConnections (replied (env_one 0)) = Inr [conn_ada]
   \<and> fst (fetch_batches env_down (vars0, world0)) = Some failed_after_three
   \<and> consecutiveFailures (fst (snd (fetch_batches env_down (vars0, world0)))) = 3
   \<and> w_events (snd (snd (fetch_batches env_down (vars0, world0))))
       = [Requested 0, Slept 2000, Requested 0, Slept 4000, Requested 0]
   \<and> (\<exists>v' w'. (batch_turn (env_one 0) (vars0\<lparr>consecutiveFailures := 2\<rparr>, world0) = Next (v', w')
                \<or> batch_turn (env_one 0) (vars0\<lparr>consecutiveFailures := 2\<rparr>, world0) = Leave (v', w'))
              \<and> consecutiveFailures v' = 0)"
proof -
  have v0: "hasMore vars0" "consecutiveFailures vars0 < maxConsecutiveFailures"
    "consecutiveFailures vars0 = 0" "start vars0 = 0"
    by (simp_all add: vars0_def maxConsecutiveFailures_def)
  have w0: "w_events world0 = []" by (simp add: world0_def)
  have one: "fetchConnections (replied (env_one 0)) = Inr [conn_ada]"
    by (simp add: env_one_def fetchConnections_def response_ok_def)
  note first = batch_loop_policy [where v = vars0 and w = world0 and env = env_down, OF v0(1,2)]
  have p1: "fetchConnections (replied (env_down (requests world0))) = Inl failed_to_fetch
            \<and> consecutiveFailures vars0 + 1 < maxConsecutiveFailures"
    using env_down_fails v0 by (simp add: maxConsecutiveFailures_def)
  define v1 where "v1 = vars0\<lparr>consecutiveFailures := consecutiveFailures vars0 + 1\<rparr>"
  from first [THEN conjunct2, THEN conjunct2, THEN conjunct2, THEN conjunct1, rule_format, OF p1]
  obtain w1 where s1: "fetch_batches env_down (vars0, world0) = fetch_batches env_down (v1, w1)"
    and e1: "w_events w1 = w_events world0 @ [Requested (start vars0),
                                              Slept (2000 * int (consecutiveFailures vars0 + 1))]"
    unfolding v1_def by blast
  have v1: "hasMore v1" "consecutiveFailures v1 < maxConsecutiveFailures"
    "consecutiveFailures v1 = 1" "start v1 = 0"
    by (simp_all add: v1_def vars0_def maxConsecutiveFailures_def)
  note second = batch_loop_policy [where v = v1 and w = w1 and env = env_down, OF v1(1,2)]
  have p2: "fetchConnections (replied (env_down (requests w1))) = Inl failed_to_fetch
            \<and> consecutiveFailures v1 + 1 < maxConsecutiveFailures"
    using env_down_fails v1 by (simp add: maxConsecutiveFailures_def)
  define v2 where "v2 = v1\<lparr>consecutiveFailures := consecutiveFailures v1 + 1\<rparr>"
  from second [THEN conjunct2, THEN conjunct2, THEN conjunct2, THEN conjunct1, rule_format, OF p2]
  obtain w2 where s2: "fetch_batches env_down (v1, w1) = fetch_batches env_down (v2, w2)"
    and e2: "w_events w2 = w_events w1 @ [Requested (start v1),
                                          Slept (2000 * int (consecutiveFailures v1 + 1))]"
    unfolding v2_def by blast
  have v2: "hasMore v2" "consecutiveFailures v2 < maxConsecutiveFailures"
    "consecutiveFailures v2 = 2" "start v2 = 0"
    by (simp_all add: v2_def v1_def vars0_def maxConsecutiveFailures_def)
  note third = batch_loop_policy [where v = v2 and w = w2 and env = env_down, OF v2(1,2)]
  have p3: "fetchConnections (replied (env_down (requests w2))) = Inl failed_to_fetch
            \<and> maxConsecutiveFailures \<le> consecutiveFailures v2 + 1"
    using env_down_fails v2 by (simp add: maxConsecutiveFailures_def)
  define v3 where "v3 = v2\<lparr>consecutiveFailures := consecutiveFailures v2 + 1\<rparr>"
  from third [THEN conjunct2, THEN conjunct2, THEN conjunct2, THEN conjunct2, rule_format, OF p3]
  obtain w3 where s3: "fetch_batches env_down (v2, w2) = (Some failed_after_three, v3, w3)"
    and e3: "w_events w3 = w_events w2 @ [Requested (start v2)]"
    unfolding v3_def by blast
  have run: "fetch_batches env_down (vars0, world0) = (Some failed_after_three, v3, w3)"
    using s1 s2 s3 by simp
  have v3: "consecutiveFailures v3 = 3"
    by (simp add: v3_def v2)
  have e3': "w_events w3 = [Requested 0, Slept 2000, Requested 0, Slept 4000, Requested 0]"
    using e1 e2 e3 v0 v1 v2 w0 by simp
  have v2': "hasMore (vars0\<lparr>consecutiveFailures := 2\<rparr>)"
    "consecutiveFailures (vars0\<lparr>consecutiveFailures := 2\<rparr>) < maxConsecutiveFailures"
    by (simp_all add: vars0_def maxConsecutiveFailures_def)
  note reset = batch_loop_policy [where v = "vars0\<lparr>consecutiveFailures := 2\<rparr>" and w = world0
      and env = env_one, OF v2']
  have r0: "requests world0 = 0" by (simp add: requests_def world0_def)
  from reset one
  have "\<exists>v' w'. (batch_turn (env_one 0) (vars0\<lparr>consecutiveFailures := 2\<rparr>, world0) = Next (v', w')
                \<or> batch_turn (env_one 0) (vars0\<lparr>consecutiveFailures := 2\<rparr>, world0) = Leave (v', w'))
              \<and> consecutiveFailures v' = 0"
    unfolding r0 by blast
  with run e3' v3 v0 one env_down_fails show ?thesis by simp
qed

lemma turn_events:
  "\<exists>more. w_events (snd (case batch_turn a vw of Next x \<Rightarrow> x | Leave x \<Rightarrow> x | Throw e x \<Rightarrow> x))
           = w_events (snd vw) @ Requested (start (fst vw)) # more"
  by (auto simp: batch_turn_def Let_def pause_def split: sum.splits)

lemma loop_events:
  "\<exists>more. w_events (snd (snd (fetch_batches env vw))) = w_events (snd vw) @ more"
proof (induction env vw rule: fetch_batches.induct)
  case (1 env vw)
  show ?case
  proof (cases "hasMore (fst vw) \<and> consecutiveFailures (fst vw) < maxConsecutiveFailures")
    case False
    then have "fetch_batches env vw = (None, vw)"
      by (subst fetch_batches.simps) auto
    then show ?thesis by simp
  next
    case True
    from turn_events [of "env (requests (snd vw))" vw]
    obtain more where m: "w_events (snd (case batch_turn (env (requests (snd vw))) vw of
                                           Next x \<Rightarrow> x | Leave x \<Rightarrow> x | Throw e x \<Rightarrow> x))
                          = w_events (snd vw) @ Requested (start (fst vw)) # more"
      by blast
    show ?thesis
    proof (cases "batch_turn (env (requests (snd vw))) vw")
      case (Next vw')
      from "1.IH" [OF True Next] obtain more' where
        "w_events (snd (snd (fetch_batches env vw'))) = w_events (snd vw') @ more'"
        by blast
      moreover have "fetch_batches env vw = fetch_batches env vw'"
        by (subst fetch_batches.simps) (simp add: True Next)
      ultimately show ?thesis using m Next by simp
    next
      case (Leave vw')
      have "fetch_batches env vw = (None, vw')"
        by (subst fetch_batches.simps) (simp add: True Leave)
      then show ?thesis using m Leave by simp
    next
      case (Throw e vw')
      have "fetch_batches env vw = (Some e, vw')"
        by (subst fetch_batches.simps) (simp add: True Throw)
      then show ?thesis using m Throw by simp
    qed
  qed
qed

lemma loop_first_request:
  assumes "hasMore (fst vw)" "consecutiveFailures (fst vw) < maxConsecutiveFailures"
  shows "\<exists>more. w_events (snd (snd (fetch_batches env vw)))
                = w_events (snd vw) @ Requested (start (fst vw)) # more"
proof -
  from turn_events [of "env (requests (snd vw))" vw]
  obtain more where m: "w_events (snd (case batch_turn (env (requests (snd vw))) vw of
                                         Next x \<Rightarrow> x | Leave x \<Rightarrow> x | Throw e x \<Rightarrow> x))
                        = w_events (snd vw) @ Requested (start (fst vw)) # more"
    by blast
  show ?thesis
  proof (cases "batch_turn (env (requests (snd vw))) vw")
    case (Next vw')
    from loop_events [of env vw'] obtain more' where
      "w_events (snd (snd (fetch_batches env vw'))) = w_events (snd vw') @ more'"
      by blast
    moreover have "fetch_batches env vw = fetch_batches env vw'"
      by (subst fetch_batches.simps) (simp add: assms Next)
    ultimately show ?thesis using m Next by simp
  next
    case (Leave vw')
    have "fetch_batches env vw = (None, vw')"
      by (subst fetch_batches.simps) (simp add: assms Leave)
    then show ?thesis using m Leave by simp
  next
    case (Throw e vw')
    have "fetch_batches env vw = (Some e, vw')"
      by (subst fetch_batches.simps) (simp add: assms Throw)
    then show ?thesis using m Throw by simp
  qed
qed

lemma network_kinds:
  "etype (fst (handleNetworkError e c now h)) \<in> {NETWORK, TIMEOUT, RATE_LIMIT}
   \<and> recoverable (fst (handleNetworkError e c now h))"
  by (simp add: handleNetworkError_def createError_def mkError_def Let_def)

lemma summary_kind:
  "etype (fst (handleNetworkError failed_after_three c now h)) = NETWORK"
  "etype (fst (handleNetworkError no_connections c now h)) = NETWORK"
  by (simp_all add: handleNetworkError_def createError_def mkError_def Let_def
                    failed_after_three_def no_connections_def)

lemma handled_original: "originalError (fst (handleNetworkError e c now h)) = Some e"
  by (simp add: handleNetworkError_def createError_def mkError_def Let_def)

lemma rethrow_events: "w_events (snd (rethrow_handled e w)) = w_events w"
  by (simp add: rethrow_handled_def Let_def)

lemma getAll_miss:
  assumes "forceRefresh \<or> \<not> js_truthy (fst (cache_get CONNECTIONS_CACHE_KEY (w_clock w) (w_store w)))"
  shows "getAllConnections forceRefresh env w =
           (case fetch_batches env
                   (\<lparr>allConnections = [], start = 0, hasMore = True, consecutiveFailures = 0\<rparr>,
                    after_lookup forceRefresh w)
            of
              (Some e, v, w2) \<Rightarrow> rethrow_handled e w2
            | (None, v, w2) \<Rightarrow>
                if length (allConnections v) = 0 then rethrow_handled no_connections w2
                else (Inr (JArr (allConnections v)),
                      w2\<lparr>w_store := cache_set CONNECTIONS_CACHE_KEY (JArr (allConnections v))
                                       DEFAULT_TTL (w_clock w2) (w_store w2)\<rparr>))"
  using assms by (auto simp: getAllConnections_def Let_def after_lookup_def)

lemma getAll_events:
  assumes "forceRefresh \<or> \<not> js_truthy (fst (cache_get CONNECTIONS_CACHE_KEY (w_clock w) (w_store w)))"
  shows "w_events (snd (getAllConnections forceRefresh env w))
         = w_events (snd (snd (fetch_batches env
                   (\<lparr>allConnections = [], start = 0, hasMore = True, consecutiveFailures = 0\<rparr>,
                    after_lookup forceRefresh w))))"
  unfolding getAll_miss [OF assms]
  by (auto simp: rethrow_events split: prod.splits option.splits)

lemma getAll_error:
  assumes "forceRefresh \<or> \<not> js_truthy (fst (cache_get CONNECTIONS_CACHE_KEY (w_clock w) (w_store w)))"
      and "fst (getAllConnections forceRefresh env w) = Inl err"
  shows "etype err = NETWORK \<and> recoverable err
         \<and> (originalError err = Some failed_after_three \<or> originalError err = Some no_connections)"
proof -
  define vw0 where
    "vw0 = (\<lparr>allConnections = [], start = 0, hasMore = True, consecutiveFailures = 0\<rparr>,
            after_lookup forceRefresh w)"
  have "consecutiveFailures (fst vw0) < maxConsecutiveFailures"
    by (simp add: vw0_def maxConsecutiveFailures_def)
  from loop_abort_iff [OF this, of env]
  have thrown: "fst (fetch_batches env vw0) = None
                \<or> fst (fetch_batches env vw0) = Some failed_after_three"
    by blast
  obtain r v w2 where run: "fetch_batches env vw0 = (r, v, w2)"
    by (cases "fetch_batches env vw0") auto
  from assms(2) have "\<exists>e \<in> {failed_after_three, no_connections}.
                        err = fst (handleNetworkError e
                                     (Some [(''operation'', JStr ''get_all_connections'')])
                                     (w_clock w2) (w_errors w2))"
    unfolding getAll_miss [OF assms(1)] vw0_def [symmetric] run
    using thrown run
    by (auto simp: rethrow_handled_def Let_def split: option.splits if_splits)
  then show ?thesis
    using summary_kind handled_original network_kinds by auto
qed

text \<open>
  C7 (as amended). When the request of the first batch fails, whatever the error, it is
  classified as a network, timeout or rate-limit error, all of them recoverable; the
  service sleeps 2000 ms and requests the same batch again. An error that
  \<^verbatim>\<open>getAllConnections\<close> throws after that is a recoverable network error that wraps the
  summary of three consecutive failures or the report that nothing was fetched.
\<close>

theorem first_batch_failure_is_retried:
  assumes "forceRefresh \<or> \<not> js_truthy (fst (cache_get CONNECTIONS_CACHE_KEY (w_clock w) (w_store w)))"
      and "fetchConnections (replied (env (requests w))) = Inl e"
  shows "etype (fst (handleNetworkError e c now h)) \<in> {NETWORK, TIMEOUT, RATE_LIMIT}
         \<and> recoverable (fst (handleNetworkError e c now h))
         \<and> take (length (w_events w) + 3) (w_events (snd (getAllConnections forceRefresh env w)))
             = w_events w @ [Requested 0, Slept 2000, Requested 0]
         \<and> (\<forall>err. fst (getAllConnections forceRefresh env w) = Inl err \<longrightarrow>
               etype err = NETWORK \<and> recoverable err
               \<and> (originalError err = Some failed_after_three
                    \<or> originalError err = Some no_connections))"
proof (intro conjI allI impI)
  show "etype (fst (handleNetworkError e c now h)) \<in> {NETWORK, TIMEOUT, RATE_LIMIT}"
    and "recoverable (fst (handleNetworkError e c now h))"
    using network_kinds [of e c now h] by blast+
next
  define v0 where
    "v0 = \<lparr>allConnections = [], start = 0, hasMore = True, consecutiveFailures = 0\<rparr>"
  define w1 where "w1 = after_lookup forceRefresh w"
  have w1: "w_events w1 = w_events w" "requests w1 = requests w"
    by (simp_all add: w1_def after_lookup_def requests_def)
  have v0: "hasMore v0" "consecutiveFailures v0 = 0" "start v0 = 0"
    by (simp_all add: v0_def)
  from assms(2) have "fetchConnections (replied (env (requests w1))) = Inl e"
    by (simp add: w1)
  from turn_failed_below [OF this, of v0 w1] v0
  obtain w' where t: "batch_turn (env (requests w1)) (v0, w1)
                      = Next (v0\<lparr>consecutiveFailures := consecutiveFailures v0 + 1\<rparr>, w')"
    and ev: "w_events w' = w_events w1 @ [Requested (start v0),
                                          Slept (2000 * int (consecutiveFailures v0 + 1))]"
    by (auto simp: maxConsecutiveFailures_def)
  define v1 where "v1 = v0\<lparr>consecutiveFailures := consecutiveFailures v0 + 1\<rparr>"
  have v1: "hasMore v1" "consecutiveFailures v1 < maxConsecutiveFailures" "start v1 = 0"
    by (simp_all add: v1_def v0_def maxConsecutiveFailures_def)
  have "fetch_batches env (v0, w1) = fetch_batches env (v1, w')"
    using loop_goes_on [of "(v0, w1)" env "(v1, w')"] t v0
    by (simp add: v1_def maxConsecutiveFailures_def)
  moreover from loop_first_request [of "(v1, w')" env] v1
  obtain more where "w_events (snd (snd (fetch_batches env (v1, w'))))
                     = w_events w' @ Requested 0 # more"
    by auto
  ultimately have "w_events (snd (snd (fetch_batches env (v0, w1))))
                   = (w_events w @ [Requested 0, Slept 2000, Requested 0]) @ more"
    using ev w1 v0 by simp
  then have "take (length (w_events w) + 3) (w_events (snd (snd (fetch_batches env (v0, w1)))))
             = w_events w @ [Requested 0, Slept 2000, Requested 0]"
    by simp
  then show "take (length (w_events w) + 3) (w_events (snd (getAllConnections forceRefresh env w)))
             = w_events w @ [Requested 0, Slept 2000, Requested 0]"
    unfolding getAll_events [OF assms(1)] v0_def w1_def .
next
  fix err
  assume "fst (getAllConnections forceRefresh env w) = Inl err"
  from getAll_error [OF assms(1) this]
  show "etype err = NETWORK" and "recoverable err"
    and "originalError err = Some failed_after_three \<or> originalError err = Some no_connections"
    by blast+
qed

lemma world0_miss:
  "\<not> js_truthy (fst (cache_get CONNECTIONS_CACHE_KEY (w_clock world0) (w_store world0)))"
  by (simp add: world0_def cache_get_def storage_get_def)

lemma http_401_thrown: "fetchConnections (replied (env_401 0)) = Inl http_401"
  by (simp add: env_401_def fetchConnections_def response_ok_def http_401_def show_int_def
                digits_of.simps digit_char_def)

lemma run_401:
  "fetch_batches env_401 (vars0, world0\<lparr>w_store := []\<rparr>)
   = (None,
      \<lparr>allConnections = [conn_ada], start = 100, hasMore = False, consecutiveFailures = 0\<rparr>,
      \<lparr>w_store = [],
       w_errors = \<lparr>errorLog = [mkError NETWORK ''HTTP 401: Unauthorized'' (Some http_401)
                                  (Some [(''batch'', JNum 0), (''attempt'', JNum 1)]) 1040],
                   critical_errors = [], storing = []\<rparr>,
       w_clock = 3870,
       w_events = [Requested 0, Slept 2000, Requested 0, Slept 750, Requested 100]\<rparr>)"
  by (simp add: fetch_batches.simps vars0_def world0_def maxConsecutiveFailures_def requests_def
                batch_turn_def env_401_def fetchConnections_def response_ok_def Let_def
                show_int_def digits_of.simps digit_char_def pause_def batchSize_def
                handleNetworkError_def createError_def logError_def mkError_def MAX_LOG_SIZE_def
                http_401_def)

theorem auth_failure_counterexample:
  "fetchConnections (replied (env_401 0)) = Inl http_401
   \<and> fst (getAllConnections False env_401 world0) = Inr (JArr [conn_ada])
   \<and> w_events (snd (getAllConnections False env_401 world0))
       = [Requested 0, Slept 2000, Requested 0, Slept 750, Requested 100]
   \<and> map etype (errorLog (w_errors (snd (getAllConnections False env_401 world0)))) = [NETWORK]"
proof -
  have "after_lookup False world0 = world0\<lparr>w_store := []\<rparr>"
    by (simp add: after_lookup_def world0_def cache_get_def storage_get_def)
  with getAll_miss [of False world0 env_401] world0_miss
  have "getAllConnections False env_401 world0 =
          (case fetch_batches env_401 (vars0, world0\<lparr>w_store := []\<rparr>) of
              (Some e, v, w2) \<Rightarrow> rethrow_handled e w2
            | (None, v, w2) \<Rightarrow>
                if length (allConnections v) = 0 then rethrow_handled no_connections w2
                else (Inr (JArr (allConnections v)),
                      w2\<lparr>w_store := cache_set CONNECTIONS_CACHE_KEY (JArr (allConnections v))
                                       DEFAULT_TTL (w_clock w2) (w_store w2)\<rparr>))"
    by (simp add: vars0_def)
  then show ?thesis
    unfolding run_401 using http_401_thrown by (simp add: mkError_def)
qed

theorem first_batch_failure_is_retried_witness:
  "(False \<or> \<not> js_truthy (fst (cache_get CONNECTIONS_CACHE_KEY (w_clock world0) (w_store world0))))
   \<and> fetchConnections (replied (env_401 (requests world0))) = Inl http_401
   \<and> etype (fst (handleNetworkError http_401 None 1040 \<lparr>errorLog = [], critical_errors = [], storing = []\<rparr>))
       = NETWORK
   \<and> recoverable (fst (handleNetworkError http_401 None 1040 \<lparr>errorLog = [], critical_errors = [], storing = []\<rparr>))
   \<and> take 3 (w_events (snd (getAllConnections False env_401 world0)))
       = [Requested 0, Slept 2000, Requested 0]
   \<and> isl (fst (getAllConnections False env_down world0))
   \<and> etype (projl (fst (getAllConnections False env_down world0))) = NETWORK"
proof -
  have r0: "requests world0 = 0" and e0: "w_events world0 = []"
    by (simp_all add: requests_def world0_def)
  have miss: "False \<or> \<not> js_truthy (fst (cache_get CONNECTIONS_CACHE_KEY (w_clock world0) (w_store world0)))"
    using world0_miss by simp
  have f401: "fetchConnections (replied (env_401 (requests world0))) = Inl http_401"
    using http_401_thrown r0 by simp
  have fdown: "fetchConnections (replied (env_down (requests world0))) = Inl failed_to_fetch"
    by (rule env_down_fails)
  note a = first_batch_failure_is_retried [where forceRefresh = False and w = world0
      and env = env_401 and e = http_401 and c = None and now = 1040
      and h = "\<lparr>errorLog = [], critical_errors = [], storing = []\<rparr>", OF miss f401]
  have kind: "etype (fst (handleNetworkError http_401 None 1040 \<lparr>errorLog = [], critical_errors = [], storing = []\<rparr>))
              = NETWORK"
    by (simp add: handleNetworkError_def createError_def mkError_def Let_def http_401_def)
  from a e0 have retried: "take 3 (w_events (snd (getAllConnections False env_401 world0)))
                           = [Requested 0, Slept 2000, Requested 0]"
    by simp
  from a have rec: "recoverable (fst (handleNetworkError http_401 None 1040
                                        \<lparr>errorLog = [], critical_errors = [], storing = []\<rparr>))"
    by blast
  note b = first_batch_failure_is_retried [where forceRefresh = False and w = world0
      and env = env_down and e = failed_to_fetch and c = None and now = 1040
      and h = "\<lparr>errorLog = [], critical_errors = [], storing = []\<rparr>", OF miss fdown]
  have down: "isl (fst (getAllConnections False env_down world0))"
    by (simp add: getAllConnections_def world0_def cache_get_def storage_get_def Let_def
                  CONNECTIONS_CACHE_KEY_def CACHE_PREFIX_def
                  fetch_batches.simps maxConsecutiveFailures_def requests_def
                  batch_turn_def env_down_def fetchConnections_def pause_def
                  rethrow_handled_def)
  then obtain err where err: "fst (getAllConnections False env_down world0) = Inl err"
    by (cases "fst (getAllConnections False env_down world0)") auto
  with b have "etype err = NETWORK" by blast
  with err have net: "etype (projl (fst (getAllConnections False env_down world0))) = NETWORK"
    by simp
  from miss f401 kind rec retried down net show ?thesis by simp
qed

subsection \<open>The connections with their logos\<close>

lemma enhance_from_length: "length (fst (enhance_from lenv k cs st)) = length cs"
  by (induction cs arbitrary: k st) (simp_all add: Let_def)

lemma enhance_from_nth:
  "i < length cs \<Longrightarrow>
   fst (enhance_from lenv k cs st) ! i =
     fst (enhance (read_at (lenv (k + i))) (cs ! i)
            (background (lenv (k + i)) (snd (enhance_from lenv k (take i cs) st))))"
proof (induction cs arbitrary: k i st)
  case Nil
  then show ?case by simp
next
  case (Cons c cs)
  show ?case
  proof (cases i)
    case 0
    then show ?thesis by (simp add: Let_def)
  next
    case (Suc j)
    with Cons.prems have "j < length cs" by simp
    from Cons.IH [OF this, of "Suc k"] Suc show ?thesis by (simp add: Let_def)
  qed
qed

lemma promise_all_Inr:
  "(\<forall>r \<in> set rs. \<exists>x. r = Inr x) \<Longrightarrow> promise_all rs = Inr (map projr rs)"
  by (induction rs rule: promise_all.induct) auto

lemma enhance_not_null: "connection \<noteq> JNull \<Longrightarrow> \<exists>r. fst (enhance now connection st) = Inr r"
  by (auto simp: enhance_def Let_def split: json.splits option.splits)

lemma enhance_fields:
  assumes "fst (enhance now connection st) = Inr r" "name \<noteq> ''companyLogo''"
  shows "get_property r name = get_property connection name"
  using assms
  by (auto simp: enhance_def Let_def update_conv' split: json.splits option.splits if_splits)

lemma enhance_changed:
  assumes "fst (enhance now connection st) = Inr r" "r \<noteq> connection"
  shows "\<exists>company kvs. connection = JObj kvs
           \<and> get_property connection ''currentCompany'' = Some company \<and> js_truthy company
           \<and> js_truthy (cached_logo now st company)
           \<and> r = JObj (AList.update ''companyLogo'' (cached_logo now st company) kvs)"
  using assms
  by (auto simp: enhance_def Let_def cached_logo_def split: json.splits option.splits if_splits)

lemma enhance_all_values:
  assumes "JNull \<notin> set connections"
  shows "promise_all (fst (enhance_from lenv 0 connections st))
         = Inr (map projr (fst (enhance_from lenv 0 connections st)))"
proof (rule promise_all_Inr, rule ballI)
  fix r assume "r \<in> set (fst (enhance_from lenv 0 connections st))"
  then obtain i where i: "i < length connections"
    and r: "r = fst (enhance_from lenv 0 connections st) ! i"
    by (auto simp: in_set_conv_nth enhance_from_length)
  from i assms have "connections ! i \<noteq> JNull" by (metis nth_mem)
  from enhance_not_null [OF this] show "\<exists>x. r = Inr x"
    unfolding r enhance_from_nth [OF i] by simp
qed

lemma enhanced_nth:
  assumes "JNull \<notin> set connections" "i < length connections"
  shows "fst (enhance (read_at (lenv i)) (connections ! i) (store_seen lenv connections st i))
         = Inr (map projr (fst (enhance_from lenv 0 connections st)) ! i)"
proof -
  from assms have "connections ! i \<noteq> JNull" by (metis nth_mem)
  from enhance_not_null [OF this]
  obtain x where "fst (enhance (read_at (lenv i)) (connections ! i) (store_seen lenv connections st i)) = Inr x"
    by blast
  then show ?thesis
    using assms(2) by (simp add: enhance_from_length enhance_from_nth store_seen_def)
qed

text \<open>
  C10. Where \<^verbatim>\<open>getAllConnections\<close> returns a list of connections, none of them
  \<^verbatim>\<open>null\<close>, \<^verbatim>\<open>getConnectionsWithLogos\<close> returns a list of the same length whose \<open>i\<close>-th
  element is made from the \<open>i\<close>-th connection: every property other than
  \<^verbatim>\<open>companyLogo\<close> reads as before, and an element differs from its connection only when
  the connection has a company and the lookup finds a logo for it in the store it
  reads; the element is then the connection with that logo as \<^verbatim>\<open>companyLogo\<close>.
\<close>

theorem logos_frame:
  assumes "getAllConnections False env w = (Inr (JArr connections), w1)"
      and "JNull \<notin> set connections"
  shows "\<exists>enhanced.
           fst (getConnectionsWithLogos env lenv w) = Inr enhanced
           \<and> length enhanced = length connections
           \<and> (\<forall>i < length connections.
                 (\<forall>name. name \<noteq> ''companyLogo'' \<longrightarrow>
                    get_property (enhanced ! i) name = get_property (connections ! i) name)
                 \<and> (enhanced ! i \<noteq> connections ! i \<longrightarrow>
                      (\<exists>company kvs.
                         connections ! i = JObj kvs
                         \<and> get_property (connections ! i) ''currentCompany'' = Some company
                         \<and> js_truthy company
                         \<and> js_truthy (cached_logo (read_at (lenv i))
                                         (store_seen lenv connections (w_store w1) i) company)
                         \<and> enhanced ! i =
                             JObj (AList.update ''companyLogo''
                                     (cached_logo (read_at (lenv i))
                                        (store_seen lenv connections (w_store w1) i) company)
                                     kvs))))"
proof -
  define enhanced where
    "enhanced = map projr (fst (enhance_from lenv 0 connections (w_store w1)))"
  have res: "fst (getConnectionsWithLogos env lenv w) = Inr enhanced"
    unfolding getConnectionsWithLogos_def assms(1) enhanced_def
    by (simp add: Let_def enhance_all_values [OF assms(2)])
  have len: "length enhanced = length connections"
    unfolding enhanced_def by (simp add: enhance_from_length)
  have each: "fst (enhance (read_at (lenv i)) (connections ! i)
                     (store_seen lenv connections (w_store w1) i)) = Inr (enhanced ! i)"
    if "i < length connections" for i
    unfolding enhanced_def by (rule enhanced_nth [OF assms(2) that])
  show ?thesis
  proof (rule exI [of _ enhanced], intro conjI allI impI)
    show "fst (getConnectionsWithLogos env lenv w) = Inr enhanced" by (rule res)
    show "length enhanced = length connections" by (rule len)
  next
    fix i name
    assume "i < length connections" "name \<noteq> ''companyLogo''"
    then show "get_property (enhanced ! i) name = get_property (connections ! i) name"
      using enhance_fields [OF each] by blast
  next
    fix i
    assume "i < length connections" "enhanced ! i \<noteq> connections ! i"
    then show "\<exists>company kvs.
                 connections ! i = JObj kvs
                 \<and> get_property (connections ! i) ''currentCompany'' = Some company
                 \<and> js_truthy company
                 \<and> js_truthy (cached_logo (read_at (lenv i))
                                 (store_seen lenv connections (w_store w1) i) company)
                 \<and> enhanced ! i =
                     JObj (AList.update ''companyLogo''
                             (cached_logo (read_at (lenv i))
                                (store_seen lenv connections (w_store w1) i) company)
                             kvs)"
      using enhance_changed [OF each] by blast
  qed
qed

lemma world_logos_hit:
  "getAllConnections False env_down world_logos = (Inr (JArr [conn_ada, conn_bob]), world_logos)"
  by (simp add: getAllConnections_def world_logos_def store_logos_def cache_get_def
                storage_get_def CONNECTIONS_CACHE_KEY_def CACHE_PREFIX_def Let_def)

lemma logos_run:
  "fst (getConnectionsWithLogos env_down lenv_quiet world_logos)
   = Inr [JObj [(''id'', JStr ''1''), (''fullName'', JStr ''Ada Lovelace''),
                (''currentCompany'', JStr ''acme''), (''companyLogo'', JStr ''logo.png'')],
          conn_bob]"
  unfolding getConnectionsWithLogos_def world_logos_hit
  by (simp add: world_logos_def store_logos_def Let_def enhance_def conn_ada_def conn_bob_def
                lenv_quiet_def cache_get_def storage_get_def COMPANY_CACHE_PREFIX_def
                CACHE_PREFIX_def)

theorem logos_frame_witness:
  "getAllConnections False env_down world_logos = (Inr (JArr [conn_ada, conn_bob]), world_logos)
   \<and> JNull \<notin> set [conn_ada, conn_bob]
   \<and> length (projr (fst (getConnectionsWithLogos env_down lenv_quiet world_logos))) = 2
   \<and> get_property (projr (fst (getConnectionsWithLogos env_down lenv_quiet world_logos)) ! 0)
        ''fullName'' = Some (JStr ''Ada Lovelace'')
   \<and> projr (fst (getConnectionsWithLogos env_down lenv_quiet world_logos)) ! 0
       = JObj [(''id'', JStr ''1''), (''fullName'', JStr ''Ada Lovelace''),
               (''currentCompany'', JStr ''acme''), (''companyLogo'', JStr ''logo.png'')]
   \<and> projr (fst (getConnectionsWithLogos env_down lenv_quiet world_logos)) ! 1 = conn_bob"
proof -
  have nn: "JNull \<notin> set [conn_ada, conn_bob]"
    by (simp add: conn_ada_def conn_bob_def)
  from logos_frame [where lenv = lenv_quiet, OF world_logos_hit nn]
  obtain enhanced where res: "fst (getConnectionsWithLogos env_down lenv_quiet world_logos) = Inr enhanced"
    and len: "length enhanced = length [conn_ada, conn_bob]"
    and fields: "\<forall>i < length [conn_ada, conn_bob]. \<forall>name. name \<noteq> ''companyLogo'' \<longrightarrow>
                   get_property (enhanced ! i) name = get_property ([conn_ada, conn_bob] ! i) name"
    by blast
  from fields have "get_property (enhanced ! 0) ''fullName'' = get_property conn_ada ''fullName''"
    by simp
  then have name: "get_property (enhanced ! 0) ''fullName'' = Some (JStr ''Ada Lovelace'')"
    by (simp add: conn_ada_def)
  from res logos_run have "enhanced = [JObj [(''id'', JStr ''1''), (''fullName'', JStr ''Ada Lovelace''),
               (''currentCompany'', JStr ''acme''), (''companyLogo'', JStr ''logo.png'')], conn_bob]"
    by simp
  then have "enhanced ! 0 = JObj [(''id'', JStr ''1''), (''fullName'', JStr ''Ada Lovelace''),
               (''currentCompany'', JStr ''acme''), (''companyLogo'', JStr ''logo.png'')]"
    and "enhanced ! 1 = conn_bob"
    by simp_all
  with world_logos_hit nn res len name show ?thesis by simp
qed

end
